theory Spec2Isabelle
  imports Main "HOL-Library.Word" "HOL-Library.AList"
begin

section \<open>Binlog I/O of the data node: a shallow embedding of \<open>binlog_io.go\<close>\<close>

text \<open>
  The development follows \<open>internal/datanode/binlog_io.go\<close>: the downloader
  (\<open>download\<close>), the multi-write primitive (\<open>uploadSegmentFiles\<close>), the three blob
  generators (\<open>genInsertBlobs\<close>, \<open>genStatBlobs\<close>, \<open>genDeltaBlobs\<close>) and the three
  upload entry points.  Collaborators that live in other packages (chunk manager,
  allocator, codecs, retry classification, path constants) are parameters of the model.
\<close>

subsection \<open>Basic types\<close>

type_synonym byte = "8 word"
type_synonym bytes = "byte list"
type_synonym UniqueID = int

text \<open>
  \<open>UniqueID\<close> is Go's \<open>int64\<close>.  The code only formats, parses and compares identifiers;
  the parser below clamps to the 64-bit range as \<open>strconv.ParseInt\<close> does.
\<close>

definition minInt64 :: int where
  "minInt64 = - (2 ^ 63)"

definition maxInt64 :: int where
  "maxInt64 = 2 ^ 63 - 1"

subsection \<open>\<open>strconv.FormatInt(i, 10)\<close> and \<open>strconv.ParseInt(s, 10, 64)\<close>\<close>

definition digit_char :: "nat \<Rightarrow> char" where
  "digit_char d = ''0123456789'' ! (d mod 10)"

fun FormatUint :: "nat \<Rightarrow> string" where
  "FormatUint n = (if n < 10 then [digit_char n] else FormatUint (n div 10) @ [digit_char (n mod 10)])"

definition FormatInt :: "int \<Rightarrow> string" where
  "FormatInt i = (if i < 0 then CHR ''-'' # FormatUint (nat (- i)) else FormatUint (nat i))"

definition is_digit :: "char \<Rightarrow> bool" where
  "is_digit c = (c \<in> set ''0123456789'')"

definition digit_val :: "char \<Rightarrow> int" where
  "digit_val c = of_char c - 48"

definition ParseUint :: "string \<Rightarrow> int option" where
  "ParseUint s = (if s = [] \<or> \<not> list_all is_digit s then None
                  else Some (foldl (\<lambda>acc c. acc * 10 + digit_val c) 0 s))"

text \<open>
  \<open>ParseInt\<close> returns the pair (value, failed).  On a syntax error the value is 0; on a
  range error it is the nearest bound of \<open>int64\<close>.  The callers in \<open>binlog_io.go\<close> discard
  the error (\<open>fID, _ := strconv.ParseInt(...)\<close>).
\<close>

definition ParseInt :: "string \<Rightarrow> int \<times> bool" where
  "ParseInt s =
     (if s = [] then (0, True)
      else let neg = (hd s = CHR ''-'');
               s' = (if hd s = CHR ''+'' \<or> hd s = CHR ''-'' then tl s else s)
           in (case ParseUint s' of
                 None \<Rightarrow> (0, True)
               | Some un \<Rightarrow>
                   if \<not> neg \<and> un > maxInt64 then (maxInt64, True)
                   else if neg \<and> - un < minInt64 then (minInt64, True)
                   else (if neg then - un else un, False)))"

subsection \<open>\<open>path.Join\<close> and \<open>path.Clean\<close>\<close>

text \<open>
  Go's \<open>path.Clean\<close> works lexically: multiple slashes collapse, \<open>.\<close> elements vanish,
  an inner \<open>..\<close> removes the element before it, \<open>..\<close> at the start of a rooted path
  vanishes, and the empty result is \<open>.\<close>.  The model works on the list of elements.
\<close>

fun splitSlash :: "string \<Rightarrow> string list" where
  "splitSlash [] = [[]]"
| "splitSlash (x # xs) =
     (if x = CHR ''/'' then [] # splitSlash xs
      else (case splitSlash xs of [] \<Rightarrow> [[x]] | y # ys \<Rightarrow> (x # y) # ys))"

fun joinSlash :: "string list \<Rightarrow> string" where
  "joinSlash [] = []"
| "joinSlash [x] = x"
| "joinSlash (x # y # ys) = x @ CHR ''/'' # joinSlash (y # ys)"

definition elements :: "string \<Rightarrow> string list" where
  "elements s = filter (\<lambda>c. c \<noteq> [] \<and> c \<noteq> ''.'') (splitSlash s)"

fun elimDotDot :: "bool \<Rightarrow> string list \<Rightarrow> string list \<Rightarrow> string list" where
  "elimDotDot rooted out [] = out"
| "elimDotDot rooted out (c # cs) =
     (if c = ''..'' then
        (if out \<noteq> [] \<and> last out \<noteq> ''..'' then elimDotDot rooted (butlast out) cs
         else if rooted then elimDotDot rooted out cs
         else elimDotDot rooted (out @ [c]) cs)
      else elimDotDot rooted (out @ [c]) cs)"

definition isRooted :: "string \<Rightarrow> bool" where
  "isRooted s = (s \<noteq> [] \<and> hd s = CHR ''/'')"

definition render :: "bool \<Rightarrow> string list \<Rightarrow> string" where
  "render rooted out =
     (if rooted then CHR ''/'' # joinSlash out
      else if out = [] then ''.'' else joinSlash out)"

definition Clean :: "string \<Rightarrow> string" where
  "Clean s = render (isRooted s) (elimDotDot (isRooted s) [] (elements s))"

definition path_Join :: "string list \<Rightarrow> string" where
  "path_Join elem =
     (let rest = dropWhile (\<lambda>e. e = []) elem
      in if rest = [] then [] else Clean (joinSlash rest))"

text \<open>
  Modelled from the spec: \<open>metautil.JoinIDPath\<close> (package \<open>pkg/util/metautil\<close>) is not
  among the sources.  The specification describes keys as the identifiers written as
  path segments in the order given; the identifiers are rendered in decimal and joined
  as a path.
\<close>

definition JoinIDPath :: "UniqueID list \<Rightarrow> string" where
  "JoinIDPath ids = path_Join (map FormatInt ids)"

text \<open>
  The elements of a key: what \<open>path.Join\<close> leaves of the root path and of the log-type
  constant once \<open>path.Clean\<close> has run over them.  The identifiers follow this stem.
\<close>

definition keyRooted :: "string \<Rightarrow> string \<Rightarrow> bool" where
  "keyRooted root sub = isRooted (joinSlash (dropWhile (\<lambda>e. e = []) [root, sub]))"

definition keyStem :: "string \<Rightarrow> string \<Rightarrow> string list" where
  "keyStem root sub = elimDotDot (keyRooted root sub) [] (elements root @ elements sub)"

definition elemOK :: "string \<Rightarrow> bool" where
  "elemOK s = (s \<noteq> [] \<and> CHR ''/'' \<notin> set s \<and> s \<noteq> ''.'')"

definition plainElem :: "string \<Rightarrow> bool" where
  "plainElem s = (s \<noteq> [] \<and> CHR ''/'' \<notin> set s \<and> s \<noteq> ''.'' \<and> s \<noteq> ''..'')"

subsection \<open>Data carried by the binlog layer\<close>

text \<open>
  \<open>errUploadToBlobStorage\<close> is the package's own sentinel; every other error comes from a
  collaborator (codec, allocator, chunk manager) and is of the abstract type \<open>'e\<close>.
\<close>

datatype 'e error = errUploadToBlobStorage | External 'e

record Blob =
  Key :: string
  Value :: bytes
  RowNum :: int

record Binlog =
  EntriesNum :: int
  LogPath :: string
  LogSize :: int

record FieldBinlog =
  FieldID :: UniqueID
  Binlogs :: "Binlog list"

record 'sc CollectionMeta =
  ID :: UniqueID
  Schema :: 'sc

text \<open>
  \<open>InsertData\<close> is column oriented: one list of values per field.  A \<open>nil\<close> pointer is
  \<open>None\<close>.
\<close>

type_synonym 'v InsertData = "(UniqueID \<times> 'v list) list"

text \<open>
  Modelled from the spec: \<open>InsertData.IsEmpty\<close> (package \<open>internal/storage\<close>) is not among
  the sources.  The specification calls an insert batch empty when it holds zero rows in
  every column; an absent batch has no rows.
\<close>

definition IsEmpty :: "'v InsertData option \<Rightarrow> bool" where
  "IsEmpty iData = (case iData of None \<Rightarrow> True | Some cols \<Rightarrow> list_all (\<lambda>(f, rows). rows = []) cols)"

record DeleteData =
  RowCount :: int

type_synonym kvs = "(string \<times> bytes) list"

subsection \<open>Collaborators\<close>

text \<open>
  \<open>binlogIO\<close> embeds \<open>storage.ChunkManager\<close> and \<open>allocator.Allocator\<close>.  Both are stateful
  services: a call takes the service's state and returns the new one.  \<open>Read\<close> and \<open>Write\<close>
  receive the context, that is whether it has been cancelled.  \<open>GetGenerator\<close> returns
  the identifiers its channel will deliver before it is closed.
\<close>

record ('st, 'al, 'e) binlogIO =
  Read :: "'st \<Rightarrow> bool \<Rightarrow> string \<Rightarrow> ('e + bytes) \<times> 'st"
  Write :: "'st \<Rightarrow> bool \<Rightarrow> string \<Rightarrow> bytes \<Rightarrow> 'e option \<times> 'st"
  RootPath :: string
  AllocOne :: "'al \<Rightarrow> ('e + UniqueID) \<times> 'al"
  GetGenerator :: "'al \<Rightarrow> nat \<Rightarrow> ('e + UniqueID list) \<times> 'al"

text \<open>
  The codecs of package \<open>storage\<close>, the error classification of package \<open>merr\<close> and the
  three path constants of package \<open>common\<close> are parameters.
\<close>

record ('e, 'v, 'dd, 'ps, 'sc) externals =
  Serialize :: "'sc CollectionMeta \<Rightarrow> UniqueID \<Rightarrow> UniqueID \<Rightarrow> 'v InsertData option \<Rightarrow> 'e + Blob list"
  SerializePkStats :: "'sc CollectionMeta \<Rightarrow> 'ps \<Rightarrow> int \<Rightarrow> 'e + Blob"
  DeleteSerialize :: "UniqueID \<Rightarrow> UniqueID \<Rightarrow> UniqueID \<Rightarrow> 'dd DeleteData_scheme \<Rightarrow> 'e + Blob"
  IsRetryableErr :: "'e \<Rightarrow> bool"
  SegmentInsertLogPath :: string
  SegmentDeltaLogPath :: string
  SegmentStatslogPath :: string

record ('st, 'al) world =
  store :: 'st
  alloc :: 'al
  ctxDone :: bool

text \<open>What a call does to its collaborators, in the order it does it.\<close>

datatype 'e event =
    SubmitRead nat string
  | ReadCall nat string "'e + bytes"
  | SubmitWrite nat string bytes
  | CtxDoneCheck nat bool
  | Sleep nat nat
  | WriteCall nat string bytes "'e option"
  | AllocOneCall "'e + UniqueID"
  | GetGeneratorCall nat "'e + UniqueID list"

subsection \<open>The task pool\<close>

text \<open>
  Tasks submitted to the pool run concurrently.  A schedule lists which task takes its
  next step (one call of the chunk manager, or one poll of the context), and when the
  context is cancelled from outside.  Claims about a call hold for every schedule.
\<close>

datatype sched = Run nat | CancelCtx

definition sysStep ::
  "(nat \<Rightarrow> ('st, 'al) world \<Rightarrow> 't \<Rightarrow> ('st, 'al) world \<times> 't \<times> 'ev list) \<Rightarrow>
   ('st, 'al) world \<times> 't list \<times> 'ev list \<Rightarrow> sched \<Rightarrow> ('st, 'al) world \<times> 't list \<times> 'ev list" where
  "sysStep step s a =
     (case s of (w, ts, evs) \<Rightarrow>
        (case a of
           CancelCtx \<Rightarrow> (w\<lparr>ctxDone := True\<rparr>, ts, evs)
         | Run i \<Rightarrow>
             if i < length ts then
               (case step i w (ts ! i) of (w1, t1, ev1) \<Rightarrow> (w1, ts[i := t1], evs @ ev1))
             else (w, ts, evs)))"

definition runTasks ::
  "(nat \<Rightarrow> ('st, 'al) world \<Rightarrow> 't \<Rightarrow> ('st, 'al) world \<times> 't \<times> 'ev list) \<Rightarrow>
   sched list \<Rightarrow> ('st, 'al) world \<Rightarrow> 't list \<Rightarrow> ('st, 'al) world \<times> 't list \<times> 'ev list" where
  "runTasks step sch w ts = foldl (sysStep step) (w, ts, []) sch"

subsection \<open>\<open>download\<close>\<close>

text \<open>
  Modelled from the spec: \<open>retry.Do\<close> (package \<open>pkg/util/retry\<close>) is not among the sources.
  The specification says a read is attempted up to the attempt ceiling, is retried only
  on an error classified as retryable, and that download tasks do not consult the
  cancellation signal between retries.  After a failed attempt, \<open>retryAgain\<close> tells whether
  another attempt follows; \<open>made\<close> counts the attempts made so far, the failed one included.
\<close>

definition retryAgain :: "nat \<Rightarrow> ('e \<Rightarrow> bool) \<Rightarrow> nat \<Rightarrow> 'e \<Rightarrow> bool" where
  "retryAgain attempts isRetryErr made e = (isRetryErr e \<and> made < attempts)"

text \<open>
  A future of the read pool: the task still runs (with its captured \<open>localPath\<close> and the
  number of attempts made), or it has returned \<open>(val, err)\<close>.  A step of the task is one
  call of \<open>Read\<close>, the attempt ceiling being the \<open>retry.Attempts(3)\<close> of the source; a task
  that gives up returns the error of its last attempt.
\<close>

datatype 'e readFuture = ReadPending string nat | ReadDone "'e + bytes"

definition readStep ::
  "('st, 'al, 'e) binlogIO \<Rightarrow> ('e \<Rightarrow> bool) \<Rightarrow> nat \<Rightarrow> ('st, 'al) world \<Rightarrow> 'e readFuture \<Rightarrow>
   ('st, 'al) world \<times> 'e readFuture \<times> 'e event list" where
  "readStep b isRetryErr i w t =
     (case t of
        ReadDone r \<Rightarrow> (w, t, [])
      | ReadPending localPath made \<Rightarrow>
          (case Read b (store w) (ctxDone w) localPath of
             (r, st') \<Rightarrow>
               (w\<lparr>store := st'\<rparr>,
                (case r of
                   Inr val \<Rightarrow> ReadDone (Inr val)
                 | Inl e \<Rightarrow> if retryAgain 3 isRetryErr (Suc made) e
                            then ReadPending localPath (Suc made) else ReadDone (Inl e)),
                [ReadCall i localPath r])))"

text \<open>
  The collecting loop of \<open>download\<close>: \<open>futures[i].OK()\<close> blocks until the future is done
  (\<open>None\<close>: the call has not returned), the first failed future ends the call with
  \<open>(nil, err)\<close>, a good one fills \<open>resp[i]\<close>.
\<close>

fun collectFutures ::
  "'e readFuture list \<Rightarrow> nat \<Rightarrow> Blob option list \<Rightarrow> (Blob option list option \<times> 'e error option) option" where
  "collectFutures [] i resp = Some (Some resp, None)"
| "collectFutures (ReadPending p k # fs) i resp = None"
| "collectFutures (ReadDone (Inl e) # fs) i resp = Some (None, Some (External e))"
| "collectFutures (ReadDone (Inr val) # fs) i resp =
     collectFutures fs (Suc i) (resp[i := Some \<lparr>Key = [], Value = val, RowNum = 0\<rparr>])"

definition submitReads :: "string list \<Rightarrow> 'e event list" where
  "submitReads paths = map (\<lambda>(i, p). SubmitRead i p) (enumerate 0 paths)"

definition download ::
  "('st, 'al, 'e) binlogIO \<Rightarrow> ('e, 'v, 'dd, 'ps, 'sc) externals \<Rightarrow> sched list \<Rightarrow> ('st, 'al) world \<Rightarrow>
   string list \<Rightarrow>
   (Blob option list option \<times> 'e error option) option \<times> ('st, 'al) world \<times> 'e event list" where
  "download b x sch w paths =
     (let resp = replicate (length paths) None
      in if length paths = 0 then (Some (Some resp, None), w, [])
         else (case runTasks (readStep b (IsRetryableErr x)) sch w (map (\<lambda>p. ReadPending p 0) paths) of
                 (w', futures, evs) \<Rightarrow> (collectFutures futures 0 resp, w', submitReads paths @ evs)))"

subsection \<open>\<open>uploadSegmentFiles\<close>\<close>

text \<open>
  The variable \<open>err\<close> of the retry loop is \<open>errStart\<close> before the first attempt and the
  error of the last \<open>Write\<close> afterwards.  \<open>errStart\<close> is a private sentinel of package
  \<open>datanode\<close>; the chunk manager cannot return it, so it has a constructor of its own.
\<close>

datatype 'e loopErr = errStart | LastWriteErr 'e

text \<open>
  A future of a write task, with its captured \<open>localPath\<close> and \<open>localVal\<close>: at the \<open>select\<close>
  at the head of the loop, past the \<open>default\<close> branch's sleep and about to call \<open>Write\<close>,
  or returned.
\<close>

datatype 'e writeFuture =
    AtSelect string bytes "'e loopErr"
  | AtWrite string bytes
  | WriteDone "'e error option"

definition writeStep ::
  "('st, 'al, 'e) binlogIO \<Rightarrow> nat \<Rightarrow> ('st, 'al) world \<Rightarrow> 'e writeFuture \<Rightarrow>
   ('st, 'al) world \<times> 'e writeFuture \<times> 'e event list" where
  "writeStep b i w t =
     (case t of
        WriteDone r \<Rightarrow> (w, t, [])
      | AtSelect localPath localVal err \<Rightarrow>
          if ctxDone w then (w, WriteDone (Some errUploadToBlobStorage), [CtxDoneCheck i True])
          else (w, AtWrite localPath localVal,
                CtxDoneCheck i False # (if err \<noteq> errStart then [Sleep i 50] else []))
      | AtWrite localPath localVal \<Rightarrow>
          (case Write b (store w) (ctxDone w) localPath localVal of
             (r, st') \<Rightarrow>
               (w\<lparr>store := st'\<rparr>,
                (case r of None \<Rightarrow> WriteDone None
                 | Some e \<Rightarrow> AtSelect localPath localVal (LastWriteErr e)),
                [WriteCall i localPath localVal r])))"

fun isDone :: "'e writeFuture \<Rightarrow> bool" where
  "isDone (WriteDone r) = True"
| "isDone t = False"

fun futureErrs :: "'e writeFuture list \<Rightarrow> 'e error list" where
  "futureErrs [] = []"
| "futureErrs (WriteDone (Some e) # fs) = e # futureErrs fs"
| "futureErrs (t # fs) = futureErrs fs"

text \<open>
  Modelled from the spec: \<open>conc.AwaitAll\<close> (package \<open>pkg/util/conc\<close>) is not among the
  sources.  The specification says the call blocks until every task has completed
  (\<open>None\<close>: it has not returned), and fails with a task's error if any task reports one.
\<close>

definition AwaitAll :: "'e writeFuture list \<Rightarrow> 'e error option option" where
  "AwaitAll futures =
     (if \<not> list_all isDone futures then None
      else (case futureErrs futures of [] \<Rightarrow> Some None | e # es \<Rightarrow> Some (Some e)))"

definition submitWrites :: "kvs \<Rightarrow> 'e event list" where
  "submitWrites m = map (\<lambda>(i, key, val). SubmitWrite i key val) (enumerate 0 m)"

text \<open>
  \<open>kvs\<close> is a Go map: an association list with distinct keys, written with
  \<open>AList.update\<close>.  Go ranges over a map in no fixed order; the tasks are numbered in the
  order of the list, and nothing below depends on that order.
\<close>

definition uploadSegmentFiles ::
  "('st, 'al, 'e) binlogIO \<Rightarrow> sched list \<Rightarrow> ('st, 'al) world \<Rightarrow> UniqueID \<Rightarrow> UniqueID \<Rightarrow> kvs \<Rightarrow>
   'e error option option \<times> ('st, 'al) world \<times> 'e event list" where
  "uploadSegmentFiles b sch w CollectionID segID m =
     (if length m = 0 then (Some None, w, [])
      else (case runTasks (writeStep b) sch w (map (\<lambda>(key, val). AtSelect key val errStart) m) of
              (w', futures, evs) \<Rightarrow> (AwaitAll futures, w', submitWrites m @ evs)))"

subsection \<open>Blob generation\<close>

text \<open>
  \<open><-generator\<close>: the next identifier of the channel; a closed channel delivers the zero
  value.
\<close>

fun recv :: "UniqueID list \<Rightarrow> UniqueID \<times> UniqueID list" where
  "recv [] = (0, [])"
| "recv (idx # rest) = (idx, rest)"

type_synonym paths = "UniqueID \<rightharpoonup> FieldBinlog"

text \<open>
  The loop of \<open>genInsertBlobs\<close> over the serialized blobs.  \<open>iCodec.Schema\<close> is the
  collection meta the codec was built from, so \<open>iCodec.Schema.GetID()\<close> is its \<open>ID\<close>.
\<close>

fun insertLoop ::
  "string \<Rightarrow> string \<Rightarrow> UniqueID \<Rightarrow> UniqueID \<Rightarrow> UniqueID \<Rightarrow> Blob list \<Rightarrow> UniqueID list \<Rightarrow>
   kvs \<times> paths \<Rightarrow> kvs \<times> paths" where
  "insertLoop root sub collID partID segID [] generator st = st"
| "insertLoop root sub collID partID segID (blob # inlogs) generator st =
     (case st of (m, inpaths) \<Rightarrow>
        (case recv generator of (idx, generator') \<Rightarrow>
           (let fID = fst (ParseInt (Key blob));
                k = JoinIDPath [collID, partID, segID, fID, idx];
                key = path_Join [root, sub, k];
                val = Value blob;
                fileLen = length val
            in insertLoop root sub collID partID segID inlogs generator'
                 (AList.update key val m,
                  inpaths(fID \<mapsto> \<lparr>FieldID = fID,
                     Binlogs = [\<lparr>EntriesNum = RowNum blob, LogPath = key, LogSize = int fileLen\<rparr>]\<rparr>)))))"

definition genInsertBlobs ::
  "('st, 'al, 'e) binlogIO \<Rightarrow> ('e, 'v, 'dd, 'ps, 'sc) externals \<Rightarrow> ('st, 'al) world \<Rightarrow>
   'v InsertData option \<Rightarrow> UniqueID \<Rightarrow> UniqueID \<Rightarrow> 'sc CollectionMeta \<Rightarrow> kvs \<Rightarrow>
   ('e error + kvs \<times> paths) \<times> ('st, 'al) world \<times> 'e event list" where
  "genInsertBlobs b x w data partID segID meta m =
     (case Serialize x meta partID segID data of
        Inl e \<Rightarrow> (Inl (External e), w, [])
      | Inr inlogs \<Rightarrow>
          (case GetGenerator b (alloc w) (length inlogs) of
             (g, al') \<Rightarrow>
               (case g of
                  Inl e \<Rightarrow> (Inl (External e), w\<lparr>alloc := al'\<rparr>, [GetGeneratorCall (length inlogs) g])
                | Inr generator \<Rightarrow>
                    (Inr (insertLoop (RootPath b) (SegmentInsertLogPath x) (ID meta) partID segID
                            inlogs generator (m, Map.empty)),
                     w\<lparr>alloc := al'\<rparr>, [GetGeneratorCall (length inlogs) g]))))"

definition genStatBlobs ::
  "('st, 'al, 'e) binlogIO \<Rightarrow> ('e, 'v, 'dd, 'ps, 'sc) externals \<Rightarrow> ('st, 'al) world \<Rightarrow>
   'ps \<Rightarrow> UniqueID \<Rightarrow> UniqueID \<Rightarrow> 'sc CollectionMeta \<Rightarrow> kvs \<Rightarrow> int \<Rightarrow>
   ('e error + kvs \<times> paths) \<times> ('st, 'al) world \<times> 'e event list" where
  "genStatBlobs b x w stats partID segID meta m totRows =
     (case SerializePkStats x meta stats totRows of
        Inl e \<Rightarrow> (Inl (External e), w, [])
      | Inr statBlob \<Rightarrow>
          (case AllocOne b (alloc w) of
             (r, al') \<Rightarrow>
               (case r of
                  Inl e \<Rightarrow> (Inl (External e), w\<lparr>alloc := al'\<rparr>, [AllocOneCall r])
                | Inr idx \<Rightarrow>
                    (let fID = fst (ParseInt (Key statBlob));
                         k = JoinIDPath [ID meta, partID, segID, fID, idx];
                         key = path_Join [RootPath b, SegmentStatslogPath x, k];
                         val = Value statBlob;
                         fileLen = length val
                     in (Inr (AList.update key val m,
                              Map.empty(fID \<mapsto> \<lparr>FieldID = fID,
                                 Binlogs = [\<lparr>EntriesNum = totRows, LogPath = key, LogSize = int fileLen\<rparr>]\<rparr>)),
                         w\<lparr>alloc := al'\<rparr>, [AllocOneCall r])))))"

definition genDeltaBlobs ::
  "('st, 'al, 'e) binlogIO \<Rightarrow> ('e, 'v, 'dd, 'ps, 'sc) externals \<Rightarrow> ('st, 'al) world \<Rightarrow>
   'dd DeleteData_scheme \<Rightarrow> UniqueID \<Rightarrow> UniqueID \<Rightarrow> UniqueID \<Rightarrow>
   ('e error + string \<times> bytes) \<times> ('st, 'al) world \<times> 'e event list" where
  "genDeltaBlobs b x w data collID partID segID =
     (case DeleteSerialize x collID partID segID data of
        Inl e \<Rightarrow> (Inl (External e), w, [])
      | Inr blob \<Rightarrow>
          (case AllocOne b (alloc w) of
             (r, al') \<Rightarrow>
               (case r of
                  Inl e \<Rightarrow> (Inl (External e), w\<lparr>alloc := al'\<rparr>, [AllocOneCall r])
                | Inr idx \<Rightarrow>
                    (let k = JoinIDPath [collID, partID, segID, idx];
                         key = path_Join [RootPath b, SegmentDeltaLogPath x, k]
                     in (Inr (key, Value blob), w\<lparr>alloc := al'\<rparr>, [AllocOneCall r])))))"

subsection \<open>The upload entry points\<close>

text \<open>
  Each entry point returns Go's result tuple (\<open>None\<close> is \<open>nil\<close>), or no result while the
  write tasks have not all finished under the schedule, together with the world it
  leaves and the events it caused.
\<close>

definition uploadStatsLog ::
  "('st, 'al, 'e) binlogIO \<Rightarrow> ('e, 'v, 'dd, 'ps, 'sc) externals \<Rightarrow> sched list \<Rightarrow> ('st, 'al) world \<Rightarrow>
   UniqueID \<Rightarrow> UniqueID \<Rightarrow> 'v InsertData option \<Rightarrow> 'ps \<Rightarrow> int \<Rightarrow> 'sc CollectionMeta \<Rightarrow>
   (paths option \<times> paths option \<times> 'e error option) option \<times> ('st, 'al) world \<times> 'e event list" where
  "uploadStatsLog b x sch w segID partID iData stats totRows meta =
     (case (if \<not> IsEmpty iData
            then (case genInsertBlobs b x w iData partID segID meta [] of
                    (Inl err, w1, ev1) \<Rightarrow> (Inl err, w1, ev1)
                  | (Inr (m1, inPaths), w1, ev1) \<Rightarrow> (Inr (m1, Some inPaths), w1, ev1))
            else (Inr ([], None), w, [])) of
        (Inl err, w1, ev1) \<Rightarrow> (Some (None, None, Some err), w1, ev1)
      | (Inr (m1, inPaths), w1, ev1) \<Rightarrow>
          (case genStatBlobs b x w1 stats partID segID meta m1 totRows of
             (Inl err, w2, ev2) \<Rightarrow> (Some (None, None, Some err), w2, ev1 @ ev2)
           | (Inr (m2, statPaths), w2, ev2) \<Rightarrow>
               (case uploadSegmentFiles b sch w2 (ID meta) segID m2 of
                  (None, w3, ev3) \<Rightarrow> (None, w3, ev1 @ ev2 @ ev3)
                | (Some (Some err), w3, ev3) \<Rightarrow> (Some (None, None, Some err), w3, ev1 @ ev2 @ ev3)
                | (Some None, w3, ev3) \<Rightarrow>
                    (Some (inPaths, Some statPaths, None), w3, ev1 @ ev2 @ ev3))))"

definition uploadInsertLog ::
  "('st, 'al, 'e) binlogIO \<Rightarrow> ('e, 'v, 'dd, 'ps, 'sc) externals \<Rightarrow> sched list \<Rightarrow> ('st, 'al) world \<Rightarrow>
   UniqueID \<Rightarrow> UniqueID \<Rightarrow> 'v InsertData option \<Rightarrow> 'sc CollectionMeta \<Rightarrow>
   (paths option \<times> 'e error option) option \<times> ('st, 'al) world \<times> 'e event list" where
  "uploadInsertLog b x sch w segID partID iData meta =
     (if IsEmpty iData then (Some (None, None), w, [])
      else (case genInsertBlobs b x w iData partID segID meta [] of
              (Inl err, w1, ev1) \<Rightarrow> (Some (None, Some err), w1, ev1)
            | (Inr (m1, inpaths), w1, ev1) \<Rightarrow>
                (case uploadSegmentFiles b sch w1 (ID meta) segID m1 of
                   (None, w2, ev2) \<Rightarrow> (None, w2, ev1 @ ev2)
                 | (Some (Some err), w2, ev2) \<Rightarrow> (Some (None, Some err), w2, ev1 @ ev2)
                 | (Some None, w2, ev2) \<Rightarrow> (Some (Some inpaths, None), w2, ev1 @ ev2))))"

definition uploadDeltaLog ::
  "('st, 'al, 'e) binlogIO \<Rightarrow> ('e, 'v, 'dd, 'ps, 'sc) externals \<Rightarrow> sched list \<Rightarrow> ('st, 'al) world \<Rightarrow>
   UniqueID \<Rightarrow> UniqueID \<Rightarrow> 'dd DeleteData_scheme \<Rightarrow> 'sc CollectionMeta \<Rightarrow>
   (FieldBinlog list option \<times> 'e error option) option \<times> ('st, 'al) world \<times> 'e event list" where
  "uploadDeltaLog b x sch w segID partID dData meta =
     (if RowCount dData > 0
      then (case genDeltaBlobs b x w dData (ID meta) partID segID of
              (Inl err, w1, ev1) \<Rightarrow> (Some (None, Some err), w1, ev1)
            | (Inr (k, v), w1, ev1) \<Rightarrow>
                (let m = AList.update k v [];
                     deltaInfo = [] @ [\<lparr>FieldID = 0,
                        Binlogs = [\<lparr>EntriesNum = RowCount dData, LogPath = k, LogSize = int (length v)\<rparr>]\<rparr>]
                 in (case uploadSegmentFiles b sch w1 (ID meta) segID m of
                       (None, w2, ev2) \<Rightarrow> (None, w2, ev1 @ ev2)
                     | (Some (Some err), w2, ev2) \<Rightarrow> (Some (None, Some err), w2, ev1 @ ev2)
                     | (Some None, w2, ev2) \<Rightarrow> (Some (Some deltaInfo, None), w2, ev1 @ ev2))))
      else (Some (None, None), w, []))"

subsection \<open>Reading the events of a call\<close>

fun readsOf :: "nat \<Rightarrow> 'e event list \<Rightarrow> (string \<times> ('e + bytes)) list" where
  "readsOf i [] = []"
| "readsOf i (ReadCall j p r # evs) = (if i = j then (p, r) # readsOf i evs else readsOf i evs)"
| "readsOf i (ev # evs) = readsOf i evs"

fun writeCalls :: "'e event list \<Rightarrow> (string \<times> bytes) list" where
  "writeCalls [] = []"
| "writeCalls (WriteCall i p v r # evs) = (p, v) # writeCalls evs"
| "writeCalls (ev # evs) = writeCalls evs"

fun submitted :: "'e event list \<Rightarrow> kvs" where
  "submitted [] = []"
| "submitted (SubmitWrite i p v # evs) = (p, v) # submitted evs"
| "submitted (ev # evs) = submitted evs"

fun allocations :: "'e event list \<Rightarrow> 'e event list" where
  "allocations [] = []"
| "allocations (AllocOneCall r # evs) = AllocOneCall r # allocations evs"
| "allocations (GetGeneratorCall n r # evs) = GetGeneratorCall n r # allocations evs"
| "allocations (ev # evs) = allocations evs"

subsection \<open>A small installation\<close>

text \<open>
  An in-memory chunk manager, a counting allocator and toy codecs, as the package's
  tests use mocks: concrete inputs on which the functions above can be run.
\<close>

definition memIO :: "(kvs, int, string) binlogIO" where
  "memIO = \<lparr>Read = (\<lambda>st ctx p. (case map_of st p of None \<Rightarrow> Inl ''not found'' | Some v \<Rightarrow> Inr v, st)),
            Write = (\<lambda>st ctx p v. (None, AList.update p v st)),
            RootPath = ''files'',
            AllocOne = (\<lambda>n. (Inr n, n + 1)),
            GetGenerator = (\<lambda>n c. (Inr (map (\<lambda>i. n + int i) [0..<c]), n + int c))\<rparr>"

definition demoExt :: "(string, byte, unit, bytes, unit) externals" where
  "demoExt = \<lparr>Serialize = (\<lambda>meta partID segID data.
                 case data of None \<Rightarrow> Inl ''no data''
                 | Some cols \<Rightarrow> Inr (map (\<lambda>(f, rows). \<lparr>Key = FormatInt f, Value = rows, RowNum = int (length rows)\<rparr>) cols)),
              SerializePkStats = (\<lambda>meta stats totRows. Inr \<lparr>Key = ''100'', Value = stats, RowNum = totRows\<rparr>),
              DeleteSerialize = (\<lambda>collID partID segID data. Inr \<lparr>Key = [], Value = [1, 2, 3], RowNum = RowCount data\<rparr>),
              IsRetryableErr = (\<lambda>e. e = ''timeout''),
              SegmentInsertLogPath = ''insert_log'',
              SegmentDeltaLogPath = ''delta_log'',
              SegmentStatslogPath = ''stats_log''\<rparr>"

definition world0 :: "(kvs, int) world" where
  "world0 = \<lparr>store = [], alloc = 7, ctxDone = False\<rparr>"

definition meta0 :: "unit CollectionMeta" where
  "meta0 = \<lparr>ID = 1, Schema = ()\<rparr>"

subsection \<open>Key layout\<close>

text \<open>
  \<open>keyLayout root sub ids key\<close>: the elements of \<open>key\<close> are those of the root path and
  of the log-type constant, then the identifiers \<open>ids\<close> in decimal, in this order.
\<close>

definition keyLayout :: "string \<Rightarrow> string \<Rightarrow> UniqueID list \<Rightarrow> string \<Rightarrow> bool" where
  "keyLayout root sub ids key = (elements key = keyStem root sub @ map FormatInt ids)"

definition fieldKey :: "string \<Rightarrow> string \<Rightarrow> UniqueID \<Rightarrow> UniqueID \<Rightarrow> UniqueID \<Rightarrow> UniqueID \<Rightarrow> UniqueID \<Rightarrow> string" where
  "fieldKey root sub collID partID segID fID idx =
     path_Join [root, sub, JoinIDPath [collID, partID, segID, fID, idx]]"

text \<open>
  What the loop of \<open>genInsertBlobs\<close> keeps true of the batch and of the paths it has
  built so far: every recorded binlog names a key of the batch that holds a payload of the
  recorded size, and every new key of the batch is a field key.
\<close>

definition insertInv ::
  "string \<Rightarrow> string \<Rightarrow> UniqueID \<Rightarrow> UniqueID \<Rightarrow> UniqueID \<Rightarrow> kvs \<Rightarrow> kvs \<times> paths \<Rightarrow> bool" where
  "insertInv root sub collID partID segID m0 st =
     (case st of (m, inpaths) \<Rightarrow>
        (\<forall>fID fb. inpaths fID = Some fb \<longrightarrow>
           (\<exists>idx v n. fb = \<lparr>FieldID = fID, Binlogs = [\<lparr>EntriesNum = n,
                          LogPath = fieldKey root sub collID partID segID fID idx,
                          LogSize = int (length v)\<rparr>]\<rparr>
                     \<and> map_of m (fieldKey root sub collID partID segID fID idx) = Some v)) \<and>
        (\<forall>key. key \<in> fst ` set m \<longrightarrow>
           key \<in> fst ` set m0 \<or> (\<exists>fID idx. key = fieldKey root sub collID partID segID fID idx)))"

subsection \<open>Kinds of events\<close>

text \<open>Events caused by the tasks of the pool, as opposed to submissions and allocations.\<close>

fun poolEvent :: "'e event \<Rightarrow> bool" where
  "poolEvent (ReadCall i p r) = True"
| "poolEvent (CtxDoneCheck i c) = True"
| "poolEvent (Sleep i ms) = True"
| "poolEvent (WriteCall i p v r) = True"
| "poolEvent ev = False"

text \<open>The results of the \<open>AllocOne\<close> calls among the events.\<close>

fun allocOnes :: "'e event list \<Rightarrow> ('e + UniqueID) list" where
  "allocOnes [] = []"
| "allocOnes (AllocOneCall r # evs) = r # allocOnes evs"
| "allocOnes (ev # evs) = allocOnes evs"

text \<open>A codec whose statistics serializer fails.\<close>

definition brokenExt :: "(string, byte, unit, bytes, unit) externals" where
  "brokenExt = demoExt\<lparr>SerializePkStats := (\<lambda>meta stats totRows. Inl ''codec'')\<rparr>"

text \<open>Which of the two result maps of \<open>uploadStatsLog\<close> are \<open>nil\<close>, and its error.\<close>

fun nilResults ::
  "(paths option \<times> paths option \<times> 'e error option) option \<Rightarrow> (bool \<times> bool \<times> 'e error option) option" where
  "nilResults None = None"
| "nilResults (Some (ins, sts, err)) = Some (Option.is_none ins, Option.is_none sts, err)"

subsection \<open>Invariant of the read tasks\<close>

text \<open>
  What holds of a read task and of the reads it has made so far, under every schedule:
  all reads are of its own path and answered by the chunk manager; while the task is
  pending it has made fewer than three attempts and each failed with a retryable error;
  once it is done, its result is the answer to its last read, every earlier read failed
  with a retryable error, and a failure is final because the error is not retryable or
  because it was the third attempt.
\<close>

fun retryableFailure :: "('e \<Rightarrow> bool) \<Rightarrow> string \<times> ('e + bytes) \<Rightarrow> bool" where
  "retryableFailure isRetryErr (p, Inl e) = isRetryErr e"
| "retryableFailure isRetryErr (p, Inr val) = False"

definition readInv ::
  "('st, 'al, 'e) binlogIO \<Rightarrow> ('e \<Rightarrow> bool) \<Rightarrow> string \<Rightarrow> 'e readFuture \<Rightarrow> (string \<times> ('e + bytes)) list \<Rightarrow> bool" where
  "readInv b isRetryErr p t rs =
     (list_all (\<lambda>(q, r). q = p \<and> (\<exists>st c. r = fst (Read b st c p))) rs \<and>
      (case t of
         ReadPending q made \<Rightarrow>
           q = p \<and> made = length rs \<and> made < 3 \<and> list_all (retryableFailure isRetryErr) rs
       | ReadDone r \<Rightarrow>
           rs \<noteq> [] \<and> snd (last rs) = r \<and> length rs \<le> 3 \<and>
           list_all (retryableFailure isRetryErr) (butlast rs) \<and>
           (case r of Inl e \<Rightarrow> \<not> isRetryErr e \<or> length rs = 3 | Inr val \<Rightarrow> True)))"

definition readsInv ::
  "('st, 'al, 'e) binlogIO \<Rightarrow> ('e \<Rightarrow> bool) \<Rightarrow> string list \<Rightarrow> sched list \<Rightarrow>
   ('st, 'al) world \<times> 'e readFuture list \<times> 'e event list \<Rightarrow> bool" where
  "readsInv b isRetryErr paths sch s =
     (case s of (w, ts, evs) \<Rightarrow>
        length ts = length paths \<and>
        (\<forall>i < length paths.
           readInv b isRetryErr (paths ! i) (ts ! i) (readsOf i evs) \<and>
           (\<forall>q made. ts ! i = ReadPending q made \<longrightarrow> made = count_list sch (Run i))))"

text \<open>
  More chunk managers: one whose reads always time out, one whose reads always succeed
  (with the bytes of the path), and a world with two stored blobs.
\<close>

definition timeoutIO :: "(kvs, int, string) binlogIO" where
  "timeoutIO = memIO\<lparr>Read := (\<lambda>st ctx p. (Inl ''timeout'', st))\<rparr>"

definition echoIO :: "(kvs, int, string) binlogIO" where
  "echoIO = memIO\<lparr>Read := (\<lambda>st ctx p. (Inr (map of_char p), st))\<rparr>"

definition storeAB :: "(kvs, int) world" where
  "storeAB = \<lparr>store = [(''a'', [1]), (''b'', [2])], alloc = 7, ctxDone = False\<rparr>"

subsection \<open>The events of one task\<close>

fun taskOf :: "'e event \<Rightarrow> nat option" where
  "taskOf (ReadCall i p r) = Some i"
| "taskOf (CtxDoneCheck i c) = Some i"
| "taskOf (Sleep i ms) = Some i"
| "taskOf (WriteCall i p v r) = Some i"
| "taskOf ev = None"

definition taskEvents :: "nat \<Rightarrow> 'e event list \<Rightarrow> 'e event list" where
  "taskEvents i evs = filter (\<lambda>ev. taskOf ev = Some i) evs"

text \<open>The results of the \<open>Write\<close> calls of task \<open>i\<close>, in order.\<close>

fun writesOf :: "nat \<Rightarrow> 'e event list \<Rightarrow> 'e option list" where
  "writesOf i [] = []"
| "writesOf i (WriteCall j p v r # evs) = (if i = j then r # writesOf i evs else writesOf i evs)"
| "writesOf i (ev # evs) = writesOf i evs"

subsection \<open>The retry discipline of a write task\<close>

text \<open>
  The discipline a write task is claimed to follow, as a monitor over the task's own
  events.  At the head of the loop a poll of the context is due (\<open>AwaitCheck first\<close>, where
  \<open>first\<close> tells whether no attempt has been made yet).  A poll that finds the context done
  stops the task (\<open>StoppedCancelled\<close>).  Otherwise a \<open>Write\<close> is due, after a sleep of 50 ms
  unless it is the first attempt.  A successful \<open>Write\<close> stops the task (\<open>StoppedOk\<close>); a
  failed one, whatever its error, leads back to the head of the loop.  Any other event,
  an event of another task or a \<open>Write\<close> of another pair is a violation.
\<close>

datatype phase = AwaitCheck bool | AwaitSleep | AwaitWrite | StoppedOk | StoppedCancelled | Violated

fun discipline :: "nat \<Rightarrow> string \<times> bytes \<Rightarrow> phase \<Rightarrow> 'e event \<Rightarrow> phase" where
  "discipline i kv (AwaitCheck first) (CtxDoneCheck j c) =
     (if j \<noteq> i then Violated
      else if c then StoppedCancelled
      else if first then AwaitWrite else AwaitSleep)"
| "discipline i kv AwaitSleep (Sleep j ms) = (if j = i \<and> ms = 50 then AwaitWrite else Violated)"
| "discipline i kv AwaitWrite (WriteCall j p v r) =
     (if j = i \<and> (p, v) = kv
      then (case r of None \<Rightarrow> StoppedOk | Some e \<Rightarrow> AwaitCheck False)
      else Violated)"
| "discipline i kv ph ev = Violated"

text \<open>The phase of the discipline a write future is in.\<close>

fun phaseOf :: "string \<times> bytes \<Rightarrow> 'e writeFuture \<Rightarrow> phase" where
  "phaseOf kv (AtSelect p v errStart) = (if (p, v) = kv then AwaitCheck True else Violated)"
| "phaseOf kv (AtSelect p v (LastWriteErr e)) = (if (p, v) = kv then AwaitCheck False else Violated)"
| "phaseOf kv (AtWrite p v) = (if (p, v) = kv then AwaitWrite else Violated)"
| "phaseOf kv (WriteDone None) = StoppedOk"
| "phaseOf kv (WriteDone (Some errUploadToBlobStorage)) = StoppedCancelled"
| "phaseOf kv (WriteDone (Some (External e))) = Violated"

text \<open>Invariants of the write tasks under any schedule.\<close>

definition writesInv ::
  "kvs \<Rightarrow> ('st, 'al) world \<times> 'e writeFuture list \<times> 'e event list \<Rightarrow> bool" where
  "writesInv m s =
     (case s of (w, ts, evs) \<Rightarrow>
        length ts = length m \<and>
        (\<forall>i < length m.
           foldl (discipline i (m ! i)) (AwaitCheck True) (taskEvents i evs) = phaseOf (m ! i) (ts ! i) \<and>
           phaseOf (m ! i) (ts ! i) \<noteq> Violated))"

text \<open>
  While the context is not cancelled and every \<open>Write\<close> of task \<open>i\<close> has failed, the task
  has made one attempt for every two steps it was given, and is still in its loop.
\<close>

definition retryingInv ::
  "sched list \<Rightarrow> nat \<Rightarrow> ('st, 'al) world \<times> 'e writeFuture list \<times> 'e event list \<Rightarrow> bool" where
  "retryingInv sch i s =
     (case s of (w, ts, evs) \<Rightarrow>
        \<not> ctxDone w \<and>
        (list_all (\<lambda>r. r \<noteq> None) (writesOf i evs) \<longrightarrow>
           length (writesOf i evs) = count_list sch (Run i) div 2 \<and>
           (case ts ! i of
              AtSelect p v err \<Rightarrow> even (count_list sch (Run i))
            | AtWrite p v \<Rightarrow> odd (count_list sch (Run i))
            | WriteDone r \<Rightarrow> False)))"

text \<open>
  A task that has not run when the context is cancelled: it stays as submitted until it
  is scheduled, and then returns \<open>errUploadToBlobStorage\<close> after one poll.
\<close>

definition cancelledTask ::
  "nat \<Rightarrow> string \<Rightarrow> bytes \<Rightarrow> 'e event list \<Rightarrow> sched list \<Rightarrow>
   ('st, 'al) world \<times> 'e writeFuture list \<times> 'e event list \<Rightarrow> bool" where
  "cancelledTask i p v evs0 sch s =
     (case s of (w, ts, evs) \<Rightarrow>
        ctxDone w \<and> i < length ts \<and> writesOf i evs = writesOf i evs0 \<and>
        (if Run i \<in> set sch
         then ts ! i = WriteDone (Some errUploadToBlobStorage) \<and>
              taskEvents i evs = taskEvents i evs0 @ [CtxDoneCheck i True]
         else ts ! i = AtSelect p v errStart \<and> taskEvents i evs = taskEvents i evs0))"

text \<open>A call whose context was cancelled before it started.\<close>

definition cancelledCall ::
  "'st \<Rightarrow> sched list \<Rightarrow> ('st, 'al) world \<times> 'e writeFuture list \<times> 'e event list \<Rightarrow> bool" where
  "cancelledCall st0 sch s =
     (case s of (w, ts, evs) \<Rightarrow>
        ctxDone w \<and> store w = st0 \<and> writeCalls evs = [] \<and>
        (\<forall>i < length ts.
           if Run i \<in> set sch then ts ! i = WriteDone (Some errUploadToBlobStorage)
           else (\<exists>p v. ts ! i = AtSelect p v errStart)))"

text \<open>A chunk manager whose writes always fail.\<close>

definition failingIO :: "(kvs, int, string) binlogIO" where
  "failingIO = memIO\<lparr>Write := (\<lambda>st ctx p v. (Some ''unavailable'', st))\<rparr>"

text \<open>
  A task is at the head of its loop, where the context is polled, when it has done nothing
  yet or when its last event is a \<open>Write\<close> that failed.
\<close>

fun failedWrite :: "nat \<Rightarrow> 'e event \<Rightarrow> bool" where
  "failedWrite i (WriteCall j p v (Some e)) = (j = i)"
| "failedWrite i ev = False"

definition atLoopHead :: "nat \<Rightarrow> 'e event list \<Rightarrow> bool" where
  "atLoopHead i evs = (taskEvents i evs = [] \<or> failedWrite i (last (taskEvents i evs)))"

text \<open>A chunk manager whose reads always fail, with an error that names the path.\<close>

definition pathErrIO :: "(kvs, int, string) binlogIO" where
  "pathErrIO = memIO\<lparr>Read := (\<lambda>st ctx p. (Inl (''missing '' @ p), st))\<rparr>"

section \<open>Decimal identifiers and paths\<close>


lemma below_ten: "(d::nat) < 10 \<Longrightarrow> d \<in> {0,1,2,3,4,5,6,7,8,9}"
  by simp arith

lemma digit_char_is_digit: "is_digit (digit_char d)"
proof -
  have "d mod 10 < 10" by simp
  then have "d mod 10 \<in> {0,1,2,3,4,5,6,7,8,9}" by (rule below_ten)
  then show ?thesis
    unfolding digit_char_def is_digit_def by auto
qed

lemma digit_val_digit_char: "d < 10 \<Longrightarrow> digit_val (digit_char d) = int d"
proof -
  assume "d < 10"
  then have "d \<in> {0,1,2,3,4,5,6,7,8,9}" by (rule below_ten)
  then show ?thesis
    unfolding digit_char_def digit_val_def by auto
qed

lemma FormatUint_digits: "list_all is_digit (FormatUint n)"
proof (induction n rule: FormatUint.induct)
  case (1 n)
  show ?case
  proof (cases "n < 10")
    case True
    then show ?thesis by (simp add: digit_char_is_digit)
  next
    case False
    then show ?thesis using 1 by (simp add: digit_char_is_digit)
  qed
qed

lemma FormatUint_nonempty: "FormatUint n \<noteq> []"
  by (induction n rule: FormatUint.induct) (simp split: if_splits)

lemma ParseUint_FormatUint_aux:
  "foldl (\<lambda>acc c. acc * 10 + digit_val c) 0 (FormatUint n) = int n"
proof (induction n rule: FormatUint.induct)
  case (1 n)
  show ?case
  proof (cases "n < 10")
    case True
    then show ?thesis by (simp add: digit_val_digit_char)
  next
    case False
    have "n mod 10 < 10" by simp
    then have dv: "digit_val (digit_char (n mod 10)) = int (n mod 10)"
      by (rule digit_val_digit_char)
    from False 1 have ih: "foldl (\<lambda>acc c. acc * 10 + digit_val c) 0 (FormatUint (n div 10)) = int (n div 10)"
      by simp
    have "FormatUint n = FormatUint (n div 10) @ [digit_char (n mod 10)]"
      using False by simp
    then have "foldl (\<lambda>acc c. acc * 10 + digit_val c) 0 (FormatUint n) = int (n div 10) * 10 + int (n mod 10)"
      using ih dv by (simp del: FormatUint.simps)
    also have "\<dots> = int n" by (simp add: zdiv_int zmod_int)
    finally show ?thesis .
  qed
qed

lemma ParseUint_FormatUint: "ParseUint (FormatUint n) = Some (int n)"
  unfolding ParseUint_def
  using FormatUint_digits FormatUint_nonempty ParseUint_FormatUint_aux by simp

lemma FormatUint_inj: "FormatUint a = FormatUint b \<Longrightarrow> a = b"
  using ParseUint_FormatUint [of a] ParseUint_FormatUint [of b] by simp

lemma is_digit_not_special: "is_digit c \<Longrightarrow> c \<noteq> CHR ''/'' \<and> c \<noteq> CHR ''-'' \<and> c \<noteq> CHR ''.'' \<and> c \<noteq> CHR ''+''"
  unfolding is_digit_def by auto

lemma FormatUint_hd: "is_digit (hd (FormatUint n))"
  using FormatUint_digits [of n] FormatUint_nonempty [of n]
  by (cases "FormatUint n") simp_all

lemma FormatInt_inj: "FormatInt a = FormatInt b \<Longrightarrow> a = b"
proof -
  assume eq: "FormatInt a = FormatInt b"
  have hdp: "\<And>n. hd (FormatUint n) \<noteq> CHR ''-''"
    using FormatUint_hd is_digit_not_special by blast
  have ne: "\<And>n. FormatUint n \<noteq> []" by (rule FormatUint_nonempty)
  show ?thesis
  proof (cases "a < 0")
    case a: True
    show ?thesis
    proof (cases "b < 0")
      case True
      with a eq have "FormatUint (nat (- a)) = FormatUint (nat (- b))"
        by (simp add: FormatInt_def del: FormatUint.simps)
      then have "nat (- a) = nat (- b)" by (rule FormatUint_inj)
      with a True show ?thesis by simp
    next
      case False
      with a eq have "CHR ''-'' # FormatUint (nat (- a)) = FormatUint (nat b)"
        by (simp add: FormatInt_def del: FormatUint.simps)
      then have "hd (FormatUint (nat b)) = CHR ''-''" by (metis list.sel(1))
      with hdp show ?thesis by blast
    qed
  next
    case a: False
    show ?thesis
    proof (cases "b < 0")
      case True
      with a eq have "FormatUint (nat a) = CHR ''-'' # FormatUint (nat (- b))"
        by (simp add: FormatInt_def del: FormatUint.simps)
      then have "hd (FormatUint (nat a)) = CHR ''-''" by (metis list.sel(1))
      with hdp show ?thesis by blast
    next
      case False
      with a eq have "FormatUint (nat a) = FormatUint (nat b)"
        by (simp add: FormatInt_def del: FormatUint.simps)
      then have "nat a = nat b" by (rule FormatUint_inj)
      with a False show ?thesis by simp
    qed
  qed
qed

lemma FormatUint_no_special: "c \<in> set (FormatUint n) \<Longrightarrow> is_digit c"
  using FormatUint_digits [of n] by (simp add: list_all_iff del: FormatUint.simps)

lemma FormatInt_plain: "plainElem (FormatInt i)"
proof -
  have sl: "CHR ''/'' \<notin> set (FormatUint n)" for n
    using FormatUint_no_special is_digit_not_special by blast
  have dot: "CHR ''.'' \<notin> set (FormatUint n)" for n
    using FormatUint_no_special is_digit_not_special by blast
  have ne: "FormatUint n \<noteq> []" for n by (rule FormatUint_nonempty)
  show ?thesis
  proof (cases "i < 0")
    case True
    then have f: "FormatInt i = CHR ''-'' # FormatUint (nat (- i))"
      by (simp add: FormatInt_def del: FormatUint.simps)
    show ?thesis unfolding plainElem_def f using sl by (simp del: FormatUint.simps)
  next
    case False
    then have f: "FormatInt i = FormatUint (nat i)"
      by (simp add: FormatInt_def del: FormatUint.simps)
    have "FormatUint (nat i) \<noteq> ''.''" using dot [of "nat i"] by (metis list.set_intros(1))
    moreover have "FormatUint (nat i) \<noteq> ''..''" using dot [of "nat i"] by (metis list.set_intros(1))
    ultimately show ?thesis unfolding plainElem_def f using sl ne by simp
  qed
qed

subsection \<open>Elements of a joined path\<close>


lemma splitSlash_nonempty: "splitSlash s \<noteq> []"
  by (induction s) (auto split: list.splits)

lemma splitSlash_append: "splitSlash (a @ CHR ''/'' # b) = splitSlash a @ splitSlash b"
  by (induction a) (auto split: list.splits simp: splitSlash_nonempty)

lemma splitSlash_plain: "CHR ''/'' \<notin> set a \<Longrightarrow> splitSlash a = [a]"
  by (induction a) (auto split: list.splits)

lemma splitSlash_no_slash: "x \<in> set (splitSlash s) \<Longrightarrow> CHR ''/'' \<notin> set x"
  by (induction s arbitrary: x) (auto split: list.splits if_splits)

lemma elements_append: "elements (a @ CHR ''/'' # b) = elements a @ elements b"
  by (simp add: elements_def splitSlash_append)

lemma elements_Nil: "elements [] = []"
  by (simp add: elements_def)

lemma elements_elemOK: "elemOK a \<Longrightarrow> elements a = [a]"
  by (simp add: elements_def elemOK_def splitSlash_plain)

lemma elements_are_elemOK: "x \<in> set (elements s) \<Longrightarrow> elemOK x"
  using splitSlash_no_slash by (auto simp: elements_def elemOK_def)

lemma elements_joinSlash: "elements (joinSlash xs) = concat (map elements xs)"
  by (induction xs rule: joinSlash.induct) (simp_all add: elements_Nil elements_append)

lemma elements_dropWhile:
  "concat (map elements (dropWhile (\<lambda>e. e = []) xs)) = concat (map elements xs)"
  by (induction xs) (simp_all add: elements_Nil)

lemma elimDotDot_append:
  "elimDotDot r out (cs @ ds) = elimDotDot r (elimDotDot r out cs) ds"
  by (induction r out cs rule: elimDotDot.induct) auto

lemma elimDotDot_plain:
  "\<forall>d \<in> set ds. d \<noteq> ''..'' \<Longrightarrow> elimDotDot r out ds = out @ ds"
  by (induction ds arbitrary: out) simp_all

lemma elimDotDot_elemOK:
  "\<forall>x \<in> set out. elemOK x \<Longrightarrow> \<forall>x \<in> set cs. elemOK x \<Longrightarrow> \<forall>x \<in> set (elimDotDot r out cs). elemOK x"
proof (induction r out cs rule: elimDotDot.induct)
  case (1 rooted out)
  then show ?case by simp
next
  case (2 rooted out c cs)
  have bl: "\<forall>x \<in> set (butlast out). elemOK x"
    using 2(5) by (meson in_set_butlastD)
  show ?case using 2 bl by (auto split: if_splits)
qed

lemma joinSlash_snoc: "xs \<noteq> [] \<Longrightarrow> joinSlash (xs @ [a]) = joinSlash xs @ CHR ''/'' # a"
  by (induction xs rule: joinSlash.induct) simp_all

lemma joinSlash_nonempty: "xs \<noteq> [] \<Longrightarrow> \<forall>x \<in> set xs. x \<noteq> [] \<Longrightarrow> joinSlash xs \<noteq> []"
  by (induction xs rule: joinSlash.induct) simp_all

lemma elements_joinSlash_OK:
  "\<forall>x \<in> set xs. elemOK x \<Longrightarrow> elements (joinSlash xs) = xs"
  by (induction xs) (simp_all add: elements_joinSlash elements_elemOK elements_Nil)

lemma elements_render:
  assumes "\<forall>x \<in> set xs. elemOK x"
  shows "elements (render r xs) = xs"
proof (cases r)
  case True
  have "elements (CHR ''/'' # joinSlash xs) = elements [] @ elements (joinSlash xs)"
    using elements_append [of "[]" "joinSlash xs"] by simp
  then show ?thesis using True assms by (simp add: render_def elements_Nil elements_joinSlash_OK)
next
  case False
  show ?thesis
  proof (cases "xs = []")
    case True
    then show ?thesis using False by (simp add: render_def elements_def)
  next
    case nonempty: False
    then show ?thesis using False assms by (simp add: render_def elements_joinSlash_OK)
  qed
qed

lemma plainElem_elemOK: "plainElem s \<Longrightarrow> elemOK s"
  by (simp add: plainElem_def elemOK_def)

lemma isRooted_joinSlash_plain:
  "xs \<noteq> [] \<Longrightarrow> plainElem (hd xs) \<Longrightarrow> \<not> isRooted (joinSlash xs)"
  by (induction xs rule: joinSlash.induct) (auto simp: isRooted_def plainElem_def hd_append dest: hd_in_set)

lemma Clean_joinSlash_plain:
  assumes "xs \<noteq> []" "\<forall>x \<in> set xs. plainElem x"
  shows "Clean (joinSlash xs) = joinSlash xs"
proof -
  have nr: "\<not> isRooted (joinSlash xs)"
    using assms by (simp add: isRooted_joinSlash_plain)
  have el: "elements (joinSlash xs) = xs"
    using assms plainElem_elemOK by (simp add: elements_joinSlash_OK)
  have "elimDotDot False [] xs = xs"
    using assms elimDotDot_plain [of xs False "[]"] by (auto simp: plainElem_def)
  then show ?thesis using nr el assms by (simp add: Clean_def render_def)
qed

lemma path_Join_plain:
  assumes "xs \<noteq> []" "\<forall>x \<in> set xs. plainElem x"
  shows "path_Join xs = joinSlash xs"
proof -
  have "dropWhile (\<lambda>e. e = []) xs = xs"
    using assms by (cases xs) (auto simp: plainElem_def)
  then show ?thesis using assms by (simp add: path_Join_def Clean_joinSlash_plain)
qed

lemma JoinIDPath_joinSlash: "ids \<noteq> [] \<Longrightarrow> JoinIDPath ids = joinSlash (map FormatInt ids)"
  unfolding JoinIDPath_def by (rule path_Join_plain) (auto simp: FormatInt_plain)

lemma isRooted_joinSlash_hd:
  "x \<noteq> [] \<Longrightarrow> isRooted (joinSlash (x # xs)) = isRooted x"
  by (cases xs) (auto simp: isRooted_def)

lemma keyRooted_ids:
  assumes "idp \<noteq> []" "\<not> isRooted idp"
  shows "isRooted (joinSlash (dropWhile (\<lambda>e. e = []) [root, sub, idp])) = keyRooted root sub"
  using assms by (auto simp: keyRooted_def isRooted_joinSlash_hd) (auto simp: isRooted_def)

lemma path_Join_ids:
  assumes "ids \<noteq> []"
  shows "path_Join [root, sub, JoinIDPath ids]
         = render (keyRooted root sub) (keyStem root sub @ map FormatInt ids)"
proof -
  let ?idp = "joinSlash (map FormatInt ids)"
  let ?rest = "dropWhile (\<lambda>e. e = []) [root, sub, ?idp]"
  have pl: "\<forall>x \<in> set (map FormatInt ids). plainElem x" by (simp add: FormatInt_plain)
  have idp: "JoinIDPath ids = ?idp" using assms by (rule JoinIDPath_joinSlash)
  have ne: "?idp \<noteq> []"
    using assms pl by (intro joinSlash_nonempty) (auto simp: plainElem_def)
  have nr: "\<not> isRooted ?idp"
    using assms by (intro isRooted_joinSlash_plain) (auto simp: FormatInt_plain hd_map)
  have rest: "?rest \<noteq> []" using ne by simp
  have rooted: "isRooted (joinSlash ?rest) = keyRooted root sub"
    using ne nr by (rule keyRooted_ids)
  have eidp: "elements ?idp = map FormatInt ids"
    using pl plainElem_elemOK by (intro elements_joinSlash_OK) auto
  have "elements (joinSlash ?rest) = concat (map elements [root, sub, ?idp])"
    by (simp only: elements_joinSlash elements_dropWhile)
  then have els: "elements (joinSlash ?rest) = (elements root @ elements sub) @ map FormatInt ids"
    using eidp by simp
  have nd: "\<forall>d \<in> set (map FormatInt ids). d \<noteq> ''..''"
    using pl by (auto simp: plainElem_def)
  have "elimDotDot (keyRooted root sub) [] ((elements root @ elements sub) @ map FormatInt ids)
        = keyStem root sub @ map FormatInt ids"
    unfolding elimDotDot_append keyStem_def using nd by (rule elimDotDot_plain)
  then have "Clean (joinSlash ?rest) = render (keyRooted root sub) (keyStem root sub @ map FormatInt ids)"
    unfolding Clean_def rooted els by simp
  then show ?thesis unfolding path_Join_def idp Let_def using rest by simp
qed

lemma keyStem_elemOK: "\<forall>x \<in> set (keyStem root sub). elemOK x"
  unfolding keyStem_def
  by (rule elimDotDot_elemOK) (auto simp: elements_are_elemOK)

lemma elements_key:
  assumes "ids \<noteq> []"
  shows "elements (path_Join [root, sub, JoinIDPath ids]) = keyStem root sub @ map FormatInt ids"
proof -
  have "\<forall>x \<in> set (keyStem root sub @ map FormatInt ids). elemOK x"
    using keyStem_elemOK [of root sub] FormatInt_plain plainElem_elemOK by auto
  then show ?thesis unfolding path_Join_ids [OF assms] by (rule elements_render)
qed

lemma keyStem_plain:
  assumes "\<forall>x \<in> set (elements root). x \<noteq> ''..''" "plainElem sub"
  shows "keyStem root sub = elements root @ [sub]"
proof -
  have "elements sub = [sub]" using assms(2) by (simp add: elements_elemOK plainElem_elemOK)
  moreover have "\<forall>d \<in> set (elements root @ [sub]). d \<noteq> ''..''"
    using assms by (auto simp: plainElem_def)
  ultimately show ?thesis
    unfolding keyStem_def using elimDotDot_plain [of "elements root @ [sub]" _ "[]"] by simp
qed

subsection \<open>Keys determine their identifiers\<close>

lemma inj_FormatInt: "inj FormatInt"
  by (rule injI) (rule FormatInt_inj)

lemma key_inj:
  assumes "path_Join [root, sub, JoinIDPath ids] = path_Join [root, sub, JoinIDPath ids']"
    and "ids \<noteq> []" "ids' \<noteq> []"
  shows "ids = ids'"
proof -
  have "keyStem root sub @ map FormatInt ids = keyStem root sub @ map FormatInt ids'"
    using assms elements_key [of ids root sub] elements_key [of ids' root sub] by simp
  then have "map FormatInt ids = map FormatInt ids'" by simp
  then show ?thesis using inj_FormatInt by (simp add: inj_map_eq_map)
qed

lemma fieldKey_inj:
  "fieldKey root sub c p s f i = fieldKey root sub c p s f' i' \<Longrightarrow> f = f' \<and> i = i'"
  unfolding fieldKey_def using key_inj [of root sub "[c, p, s, f, i]" "[c, p, s, f', i']"] by simp

lemma keyRooted_plain: "plainElem sub \<Longrightarrow> keyRooted root sub = isRooted root"
  by (cases "root = []") (auto simp: keyRooted_def isRooted_def plainElem_def dest: hd_in_set)

lemma keyStem_plain_sub:
  assumes "plainElem sub"
  shows "keyStem root sub = elimDotDot (isRooted root) [] (elements root) @ [sub]"
proof -
  have "elements sub = [sub]" using assms by (simp add: elements_elemOK plainElem_elemOK)
  moreover have "sub \<noteq> ''..''" using assms by (simp add: plainElem_def)
  ultimately show ?thesis
    unfolding keyStem_def keyRooted_plain [OF assms] elimDotDot_append
    using elimDotDot_plain [of "[sub]"] by simp
qed

lemma key_sub_distinct:
  assumes "path_Join [root, sub, JoinIDPath ids] = path_Join [root, sub', JoinIDPath ids']"
    and "ids \<noteq> []" "length ids = length ids'" "plainElem sub" "plainElem sub'"
  shows "sub = sub'"
proof -
  have ne: "ids' \<noteq> []" using assms(2,3) by auto
  have "keyStem root sub @ map FormatInt ids = keyStem root sub' @ map FormatInt ids'"
    using assms(1) elements_key [OF assms(2), of root sub] elements_key [OF ne, of root sub'] by simp
  then have "keyStem root sub = keyStem root sub'"
    using assms(3) by (simp add: append_eq_append_conv)
  then show ?thesis
    unfolding keyStem_plain_sub [OF assms(4)] keyStem_plain_sub [OF assms(5)] by simp
qed

lemma keyLayout_fieldKey:
  "keyLayout root sub [c, p, s, f, i] (fieldKey root sub c p s f i)"
  unfolding keyLayout_def fieldKey_def by (rule elements_key) simp

lemma dom_update: "fst ` set (AList.update k v m) = insert k (fst ` set m)"
  using AList.dom_update [of k v m] by simp

lemma insertInv_step:
  assumes "insertInv root sub c p s m0 (m, inpaths)"
  shows "insertInv root sub c p s m0
           (AList.update (fieldKey root sub c p s f i) val m,
            inpaths(f \<mapsto> \<lparr>FieldID = f, Binlogs = [\<lparr>EntriesNum = n,
                LogPath = fieldKey root sub c p s f i, LogSize = int (length val)\<rparr>]\<rparr>))"
proof -
  let ?K = "fieldKey root sub c p s"
  have old: "\<And>fID fb. inpaths fID = Some fb \<Longrightarrow>
           (\<exists>idx v n. fb = \<lparr>FieldID = fID, Binlogs = [\<lparr>EntriesNum = n, LogPath = ?K fID idx,
                          LogSize = int (length v)\<rparr>]\<rparr> \<and> map_of m (?K fID idx) = Some v)"
    using assms unfolding insertInv_def by simp
  have keys: "\<And>key. key \<in> fst ` set m \<Longrightarrow> key \<in> fst ` set m0 \<or> (\<exists>fID idx. key = ?K fID idx)"
    using assms unfolding insertInv_def by simp
  have a: "\<exists>idx v n'. fb = \<lparr>FieldID = fID, Binlogs = [\<lparr>EntriesNum = n', LogPath = ?K fID idx,
                          LogSize = int (length v)\<rparr>]\<rparr>
              \<and> map_of (AList.update (?K f i) val m) (?K fID idx) = Some v"
    if h: "(inpaths(f \<mapsto> \<lparr>FieldID = f, Binlogs = [\<lparr>EntriesNum = n,
                LogPath = ?K f i, LogSize = int (length val)\<rparr>]\<rparr>)) fID = Some fb" for fID fb
  proof (cases "fID = f")
    case True
    with h have "fb = \<lparr>FieldID = fID, Binlogs = [\<lparr>EntriesNum = n, LogPath = ?K fID i,
                          LogSize = int (length val)\<rparr>]\<rparr>" by simp
    moreover have "map_of (AList.update (?K f i) val m) (?K fID i) = Some val"
      using True by (simp add: update_conv')
    ultimately show ?thesis by blast
  next
    case False
    with h have "inpaths fID = Some fb" by simp
    from old [OF this] obtain idx v n' where
      fb: "fb = \<lparr>FieldID = fID, Binlogs = [\<lparr>EntriesNum = n', LogPath = ?K fID idx,
                          LogSize = int (length v)\<rparr>]\<rparr>" and mo: "map_of m (?K fID idx) = Some v"
      by blast
    have "?K fID idx \<noteq> ?K f i" using False fieldKey_inj by blast
    then have "map_of (AList.update (?K f i) val m) (?K fID idx) = Some v"
      using mo by (simp add: update_conv')
    with fb show ?thesis by blast
  qed
  have b: "key \<in> fst ` set m0 \<or> (\<exists>fID idx. key = ?K fID idx)"
    if "key \<in> fst ` set (AList.update (?K f i) val m)" for key
    using that keys unfolding dom_update by blast
  show ?thesis unfolding insertInv_def using a b by simp
qed

lemma insertLoop_inv:
  "insertInv root sub c p s m0 st \<Longrightarrow>
   insertInv root sub c p s m0 (insertLoop root sub c p s inlogs generator st)"
proof (induction inlogs arbitrary: generator st)
  case Nil
  then show ?case by simp
next
  case (Cons blob inlogs)
  obtain m inpaths where st: "st = (m, inpaths)" by (cases st)
  obtain idx generator' where rc: "recv generator = (idx, generator')" by (cases "recv generator")
  have "insertInv root sub c p s m0
           (AList.update (fieldKey root sub c p s (fst (ParseInt (Key blob))) idx) (Value blob) m,
            inpaths(fst (ParseInt (Key blob)) \<mapsto> \<lparr>FieldID = fst (ParseInt (Key blob)),
               Binlogs = [\<lparr>EntriesNum = RowNum blob,
                LogPath = fieldKey root sub c p s (fst (ParseInt (Key blob))) idx,
                LogSize = int (length (Value blob))\<rparr>]\<rparr>))"
    using Cons.prems unfolding st by (rule insertInv_step)
  from Cons.IH [OF this] show ?case
    unfolding st by (simp add: rc fieldKey_def Let_def)
qed

lemma insertInv_init: "insertInv root sub c p s m0 (m0, Map.empty)"
  by (simp add: insertInv_def)

lemma genInsertBlobs_inv:
  assumes "genInsertBlobs b x w data partID segID meta m0 = (Inr (m, inpaths), w', evs)"
  shows "insertInv (RootPath b) (SegmentInsertLogPath x) (ID meta) partID segID m0 (m, inpaths)"
proof -
  from assms obtain inlogs generator where
    "(m, inpaths) = insertLoop (RootPath b) (SegmentInsertLogPath x) (ID meta) partID segID
                       inlogs generator (m0, Map.empty)"
    unfolding genInsertBlobs_def by (auto split: sum.splits prod.splits dest: sym)
  then show ?thesis using insertLoop_inv [OF insertInv_init] by simp
qed

lemma genStatBlobs_result:
  assumes "genStatBlobs b x w stats partID segID meta m0 totRows = (Inr (m, statPaths), w', evs)"
  shows "\<exists>statBlob idx al'.
           SerializePkStats x meta stats totRows = Inr statBlob \<and>
           AllocOne b (alloc w) = (Inr idx, al') \<and>
           w' = w\<lparr>alloc := al'\<rparr> \<and> evs = [AllocOneCall (Inr idx)] \<and>
           m = AList.update (fieldKey (RootPath b) (SegmentStatslogPath x) (ID meta) partID segID
                               (fst (ParseInt (Key statBlob))) idx) (Value statBlob) m0 \<and>
           statPaths = Map.empty(fst (ParseInt (Key statBlob)) \<mapsto>
              \<lparr>FieldID = fst (ParseInt (Key statBlob)),
                 Binlogs = [\<lparr>EntriesNum = totRows,
                   LogPath = fieldKey (RootPath b) (SegmentStatslogPath x) (ID meta) partID segID
                               (fst (ParseInt (Key statBlob))) idx,
                   LogSize = int (length (Value statBlob))\<rparr>]\<rparr>)"
  using assms unfolding genStatBlobs_def fieldKey_def
  by (auto split: sum.splits prod.splits simp: Let_def)

lemma genDeltaBlobs_result:
  assumes "genDeltaBlobs b x w dData collID partID segID = (Inr (key, v), w', evs)"
  shows "\<exists>blob idx al'.
           DeleteSerialize x collID partID segID dData = Inr blob \<and>
           AllocOne b (alloc w) = (Inr idx, al') \<and>
           w' = w\<lparr>alloc := al'\<rparr> \<and> evs = [AllocOneCall (Inr idx)] \<and> v = Value blob \<and>
           key = path_Join [RootPath b, SegmentDeltaLogPath x, JoinIDPath [collID, partID, segID, idx]]"
  using assms unfolding genDeltaBlobs_def
  by (auto split: sum.splits prod.splits simp: Let_def)

lemma insertInv_paths:
  "insertInv root sub c p s m0 (m, inpaths) \<Longrightarrow> inpaths fID = Some fb \<Longrightarrow>
   \<exists>idx v n. fb = \<lparr>FieldID = fID, Binlogs = [\<lparr>EntriesNum = n,
                          LogPath = fieldKey root sub c p s fID idx,
                          LogSize = int (length v)\<rparr>]\<rparr>
                     \<and> map_of m (fieldKey root sub c p s fID idx) = Some v"
  unfolding insertInv_def by simp

lemma insertInv_keys:
  "insertInv root sub c p s m0 (m, inpaths) \<Longrightarrow> key \<in> fst ` set m \<Longrightarrow>
   key \<in> fst ` set m0 \<or> (\<exists>fID idx. key = fieldKey root sub c p s fID idx)"
  unfolding insertInv_def by simp

subsection \<open>Events of the task pool\<close>

lemma runTasks_Nil: "runTasks step [] w ts = (w, ts, [])"
  by (simp add: runTasks_def)

lemma runTasks_snoc: "runTasks step (sch @ [a]) w ts = sysStep step (runTasks step sch w ts) a"
  by (simp add: runTasks_def)

lemma runTasks_rule:
  assumes "P (w, ts, [])" and "\<And>s a. P s \<Longrightarrow> P (sysStep step s a)"
  shows "P (runTasks step sch w ts)"
  by (induction sch rule: rev_induct) (simp_all add: runTasks_Nil runTasks_snoc assms)

lemma writeStep_poolEvents:
  "writeStep b i w t = (w', t', ev) \<Longrightarrow> list_all poolEvent ev"
  unfolding writeStep_def by (auto split: writeFuture.splits if_splits prod.splits option.splits)

lemma readStep_poolEvents:
  "readStep b r i w t = (w', t', ev) \<Longrightarrow> list_all poolEvent ev"
  unfolding readStep_def by (auto split: readFuture.splits if_splits prod.splits sum.splits)

lemma sysStep_poolEvents:
  assumes "\<And>i w t w' t' ev. step i w t = (w', t', ev) \<Longrightarrow> list_all poolEvent ev"
    and "list_all poolEvent (snd (snd s))"
  shows "list_all poolEvent (snd (snd (sysStep step s a)))"
proof -
  obtain w0 ts0 evs0 where s: "s = (w0, ts0, evs0)" by (cases s)
  show ?thesis
  proof (cases a)
    case (Run i)
    show ?thesis
    proof (cases "i < length ts0")
      case True
      obtain w1 t1 ev1 where st: "step i w0 (ts0 ! i) = (w1, t1, ev1)" by (cases "step i w0 (ts0 ! i)")
      from assms(1) [OF st] assms(2) show ?thesis
        unfolding s sysStep_def Run by (simp add: True st)
    next
      case False
      then show ?thesis using assms(2) unfolding s sysStep_def Run by simp
    qed
  next
    case CancelCtx
    then show ?thesis using assms(2) unfolding s sysStep_def by simp
  qed
qed

lemma runTasks_poolEvents:
  assumes "\<And>i w t w' t' ev. step i w t = (w', t', ev) \<Longrightarrow> list_all poolEvent ev"
  shows "list_all poolEvent (snd (snd (runTasks step sch w ts)))"
  by (rule runTasks_rule [where P = "\<lambda>s. list_all poolEvent (snd (snd s))"])
     (simp_all add: sysStep_poolEvents [OF assms])

lemma poolEvents_submitted: "list_all poolEvent evs \<Longrightarrow> submitted evs = []"
  by (induction evs rule: submitted.induct) simp_all

lemma poolEvents_allocations: "list_all poolEvent evs \<Longrightarrow> allocations evs = []"
  by (induction evs rule: allocations.induct) simp_all

lemma submitted_append: "submitted (xs @ ys) = submitted xs @ submitted ys"
  by (induction xs rule: submitted.induct) simp_all

lemma allocations_append: "allocations (xs @ ys) = allocations xs @ allocations ys"
  by (induction xs rule: allocations.induct) simp_all

lemma writeCalls_append: "writeCalls (xs @ ys) = writeCalls xs @ writeCalls ys"
  by (induction xs rule: writeCalls.induct) simp_all

lemma submitted_submitWrites_aux:
  "submitted (map (\<lambda>(i, key, val). SubmitWrite i key val) (enumerate n m)) = m"
  by (induction m arbitrary: n) auto

lemma submitted_submitWrites: "submitted (submitWrites m) = m"
  unfolding submitWrites_def by (rule submitted_submitWrites_aux)

lemma allocations_submitWrites_aux:
  "allocations (map (\<lambda>(i, key, val). SubmitWrite i key val) (enumerate n m)) = []"
  by (induction m arbitrary: n) auto

lemma allocations_submitWrites: "allocations (submitWrites m) = []"
  unfolding submitWrites_def by (rule allocations_submitWrites_aux)

lemma sysStep_writeStep_alloc: "alloc (fst (sysStep (writeStep b) s a)) = alloc (fst s)"
  unfolding sysStep_def writeStep_def
  by (auto split: prod.splits sched.splits writeFuture.splits if_splits option.splits)

lemma uploadSegmentFiles_events:
  assumes "uploadSegmentFiles b sch w c s m = (r, w', evs)"
  shows "submitted evs = m \<and> allocations evs = [] \<and> alloc w' = alloc w"
proof (cases "m = []")
  case True
  then show ?thesis using assms by (simp add: uploadSegmentFiles_def)
next
  case False
  let ?run = "runTasks (writeStep b) sch w (map (\<lambda>(key, val). AtSelect key val errStart) m)"
  obtain w1 fs ev1 where run: "?run = (w1, fs, ev1)" by (cases ?run)
  have "list_all poolEvent (snd (snd ?run))"
    by (rule runTasks_poolEvents) (rule writeStep_poolEvents)
  then have pe: "list_all poolEvent ev1" by (simp add: run)
  have evs: "evs = submitWrites m @ ev1" and w': "w' = w1"
    using assms False by (simp_all add: uploadSegmentFiles_def run)
  have "alloc (fst ?run) = alloc w"
    by (rule runTasks_rule [where P = "\<lambda>s. alloc (fst s) = alloc w"])
       (simp_all add: sysStep_writeStep_alloc)
  then have "alloc w1 = alloc w" by (simp add: run)
  then show ?thesis
    unfolding evs w' submitted_append allocations_append
    by (simp add: submitted_submitWrites allocations_submitWrites
        poolEvents_submitted [OF pe] poolEvents_allocations [OF pe])
qed

subsection \<open>The steps of the upload entry points\<close>

lemma genInsertBlobs_err: "genInsertBlobs b x w data partID segID meta m0 = (Inl err, w', evs) \<Longrightarrow> \<exists>e. err = External e"
  unfolding genInsertBlobs_def by (auto split: sum.splits prod.splits)

lemma genStatBlobs_err: "genStatBlobs b x w stats partID segID meta m0 totRows = (Inl err, w', evs) \<Longrightarrow> \<exists>e. err = External e"
  unfolding genStatBlobs_def by (auto split: sum.splits prod.splits simp: Let_def)

lemma genDeltaBlobs_err: "genDeltaBlobs b x w dData collID partID segID = (Inl err, w', evs) \<Longrightarrow> \<exists>e. err = External e"
  unfolding genDeltaBlobs_def by (auto split: sum.splits prod.splits simp: Let_def)

lemma genInsertBlobs_events:
  "genInsertBlobs b x w data partID segID meta m0 = (r, w', evs) \<Longrightarrow>
   submitted evs = [] \<and> store w' = store w \<and> ctxDone w' = ctxDone w"
  unfolding genInsertBlobs_def by (auto split: sum.splits prod.splits)

lemma uploadInsertLog_success:
  assumes "uploadInsertLog b x sch w segID partID iData meta = (Some (Some inpaths, None), w', evs)"
  shows "\<exists>m w1 ev1. genInsertBlobs b x w iData partID segID meta [] = (Inr (m, inpaths), w1, ev1)
           \<and> submitted evs = m"
proof -
  from assms have ne: "\<not> IsEmpty iData" by (auto simp: uploadInsertLog_def)
  obtain r w1 ev1 where g: "genInsertBlobs b x w iData partID segID meta [] = (r, w1, ev1)"
    by (cases "genInsertBlobs b x w iData partID segID meta []")
  from assms ne g obtain m ip where r: "r = Inr (m, ip)"
    by (cases r) (auto simp: uploadInsertLog_def)
  obtain r2 w2 ev2 where u: "uploadSegmentFiles b sch w1 (ID meta) segID m = (r2, w2, ev2)"
    by (cases "uploadSegmentFiles b sch w1 (ID meta) segID m")
  from assms ne g r u have "ip = inpaths" "evs = ev1 @ ev2"
    by (auto simp: uploadInsertLog_def split: option.splits)
  moreover have "submitted ev1 = []" using genInsertBlobs_events [OF g] by simp
  moreover have "submitted ev2 = m" using uploadSegmentFiles_events [OF u] by simp
  ultimately show ?thesis using g r by (simp add: submitted_append)
qed

lemma uploadDeltaLog_success:
  assumes "uploadDeltaLog b x sch w segID partID dData meta = (Some (Some deltaInfo, None), w', evs)"
  shows "\<exists>k v w1 ev1. genDeltaBlobs b x w dData (ID meta) partID segID = (Inr (k, v), w1, ev1)
           \<and> submitted evs = [(k, v)]
           \<and> deltaInfo = [\<lparr>FieldID = 0, Binlogs = [\<lparr>EntriesNum = RowCount dData, LogPath = k,
                             LogSize = int (length v)\<rparr>]\<rparr>]"
proof -
  from assms have pos: "RowCount dData > 0" by (auto simp: uploadDeltaLog_def split: if_splits)
  obtain r w1 ev1 where g: "genDeltaBlobs b x w dData (ID meta) partID segID = (r, w1, ev1)"
    by (cases "genDeltaBlobs b x w dData (ID meta) partID segID")
  from assms pos g obtain k v where r: "r = Inr (k, v)"
    by (cases r) (auto simp: uploadDeltaLog_def)
  obtain r2 w2 ev2 where u: "uploadSegmentFiles b sch w1 (ID meta) segID [(k, v)] = (r2, w2, ev2)"
    by (cases "uploadSegmentFiles b sch w1 (ID meta) segID [(k, v)]")
  from assms pos g r u have d: "deltaInfo = [\<lparr>FieldID = 0, Binlogs = [\<lparr>EntriesNum = RowCount dData, LogPath = k,
                             LogSize = int (length v)\<rparr>]\<rparr>]" and e: "evs = ev1 @ ev2"
    by (auto simp: uploadDeltaLog_def Let_def split: option.splits)
  have "submitted ev1 = []" using genDeltaBlobs_result [of b x w dData "ID meta" partID segID k v w1 ev1] g r by auto
  moreover have "submitted ev2 = [(k, v)]" using uploadSegmentFiles_events [OF u] by simp
  ultimately show ?thesis using g r d e by (simp add: submitted_append)
qed

text \<open>The steps of \<open>uploadStatsLog\<close> up to the multi-write.\<close>

lemma uploadStatsLog_reaches_write:
  assumes "uploadStatsLog b x sch w segID partID iData stats totRows meta = (res, w', evs)"
    and "\<forall>e. res \<noteq> Some (None, None, Some (External e))"
  shows "\<exists>m1 inPaths w1 ev1 m2 statPaths w2 ev2 r ev3.
     (IsEmpty iData \<and> m1 = [] \<and> inPaths = None \<and> w1 = w \<and> ev1 = [] \<or>
      \<not> IsEmpty iData \<and> (\<exists>ip. genInsertBlobs b x w iData partID segID meta [] = (Inr (m1, ip), w1, ev1)
                              \<and> inPaths = Some ip)) \<and>
     genStatBlobs b x w1 stats partID segID meta m1 totRows = (Inr (m2, statPaths), w2, ev2) \<and>
     uploadSegmentFiles b sch w2 (ID meta) segID m2 = (r, w', ev3) \<and>
     evs = ev1 @ ev2 @ ev3 \<and>
     res = (case r of None \<Rightarrow> None | Some (Some err) \<Rightarrow> Some (None, None, Some err)
            | Some None \<Rightarrow> Some (inPaths, Some statPaths, None))"
proof -
  define first where "first =
     (if \<not> IsEmpty iData
            then (case genInsertBlobs b x w iData partID segID meta [] of
                    (Inl err, w1, ev1) \<Rightarrow> (Inl err, w1, ev1)
                  | (Inr (m1, inPaths), w1, ev1) \<Rightarrow> (Inr (m1, Some inPaths), w1, ev1))
            else (Inr ([], None), w, []))"
  obtain r1 w1 ev1 where f: "first = (r1, w1, ev1)" by (cases first)
  have u: "uploadStatsLog b x sch w segID partID iData stats totRows meta =
     (case first of
        (Inl err, w1, ev1) \<Rightarrow> (Some (None, None, Some err), w1, ev1)
      | (Inr (m1, inPaths), w1, ev1) \<Rightarrow>
          (case genStatBlobs b x w1 stats partID segID meta m1 totRows of
             (Inl err, w2, ev2) \<Rightarrow> (Some (None, None, Some err), w2, ev1 @ ev2)
           | (Inr (m2, statPaths), w2, ev2) \<Rightarrow>
               (case uploadSegmentFiles b sch w2 (ID meta) segID m2 of
                  (None, w3, ev3) \<Rightarrow> (None, w3, ev1 @ ev2 @ ev3)
                | (Some (Some err), w3, ev3) \<Rightarrow> (Some (None, None, Some err), w3, ev1 @ ev2 @ ev3)
                | (Some None, w3, ev3) \<Rightarrow>
                    (Some (inPaths, Some statPaths, None), w3, ev1 @ ev2 @ ev3))))"
    unfolding uploadStatsLog_def first_def by (rule refl)
  have r1: "\<exists>m1 inPaths. r1 = Inr (m1, inPaths)"
  proof (cases r1)
    case (Inl err)
    have "\<exists>e. err = External e"
    proof (cases "IsEmpty iData")
      case True
      then show ?thesis using f Inl by (simp add: first_def)
    next
      case False
      obtain g gw gev where g: "genInsertBlobs b x w iData partID segID meta [] = (g, gw, gev)"
        by (cases "genInsertBlobs b x w iData partID segID meta []")
      from False f Inl g have "g = Inl err"
        by (cases g) (auto simp: first_def)
      then show ?thesis
        using genInsertBlobs_err [of b x w iData partID segID meta "[]" err gw gev] g by simp
    qed
    moreover have "res = Some (None, None, Some err)"
      using assms(1) unfolding u f Inl by simp
    ultimately show ?thesis using assms(2) by blast
  next
    case (Inr p)
    then show ?thesis by (cases p) simp
  qed
  then obtain m1 inPaths where r1: "r1 = Inr (m1, inPaths)" by blast
  have first_cases: "IsEmpty iData \<and> m1 = [] \<and> inPaths = None \<and> w1 = w \<and> ev1 = [] \<or>
      \<not> IsEmpty iData \<and> (\<exists>ip. genInsertBlobs b x w iData partID segID meta [] = (Inr (m1, ip), w1, ev1)
                              \<and> inPaths = Some ip)"
  proof (cases "IsEmpty iData")
    case True
    then show ?thesis using f r1 by (simp add: first_def)
  next
    case False
    obtain g gw gev where g: "genInsertBlobs b x w iData partID segID meta [] = (g, gw, gev)"
      by (cases "genInsertBlobs b x w iData partID segID meta []")
    from False f r1 g show ?thesis
      by (cases g) (auto simp: first_def)
  qed
  obtain r2 w2 ev2 where s: "genStatBlobs b x w1 stats partID segID meta m1 totRows = (r2, w2, ev2)"
    by (cases "genStatBlobs b x w1 stats partID segID meta m1 totRows")
  have "\<exists>m2 statPaths. r2 = Inr (m2, statPaths)"
  proof (cases r2)
    case (Inl err)
    then have "\<exists>e. err = External e"
      using genStatBlobs_err [of b x w1 stats partID segID meta m1 totRows err w2 ev2] s by simp
    moreover have "res = Some (None, None, Some err)"
      using assms(1) unfolding u f r1 by (simp add: s Inl)
    ultimately show ?thesis using assms(2) by blast
  next
    case (Inr p)
    then show ?thesis by (cases p) simp
  qed
  then obtain m2 statPaths where r2: "r2 = Inr (m2, statPaths)" by blast
  obtain r w3 ev3 where up: "uploadSegmentFiles b sch w2 (ID meta) segID m2 = (r, w3, ev3)"
    by (cases "uploadSegmentFiles b sch w2 (ID meta) segID m2")
  have fin: "w' = w3 \<and> evs = ev1 @ ev2 @ ev3 \<and>
     res = (case r of None \<Rightarrow> None | Some (Some err) \<Rightarrow> Some (None, None, Some err)
            | Some None \<Rightarrow> Some (inPaths, Some statPaths, None))"
    using assms(1) unfolding u f r1 by (auto simp: s r2 up split: option.splits)
  show ?thesis
    using first_cases s r2 up fin by blast
qed

lemma allocOnes_append: "allocOnes (xs @ ys) = allocOnes xs @ allocOnes ys"
  by (induction xs rule: allocOnes.induct) simp_all

lemma allocOnes_allocations: "allocations evs = [] \<Longrightarrow> allocOnes evs = []"
  by (induction evs rule: allocations.induct) simp_all

lemma genInsertBlobs_allocOnes:
  "genInsertBlobs b x w data partID segID meta m0 = (r, w', evs) \<Longrightarrow> allocOnes evs = []"
  unfolding genInsertBlobs_def by (auto split: sum.splits prod.splits)

lemma statsKey_not_insertKey:
  assumes "plainElem subI" "plainElem subS" "subI \<noteq> subS"
  shows "fieldKey root subS c p s f i \<noteq> fieldKey root subI c p s f' i'"
  unfolding fieldKey_def
  using key_sub_distinct [of root subS "[c, p, s, f, i]" subI "[c, p, s, f', i']"] assms by auto

lemma insertInv_binlogs:
  assumes "insertInv root sub c p s m0 (m, inpaths)" "inpaths fID = Some fb" "bl \<in> set (Binlogs fb)"
  shows "\<exists>idx v. LogPath bl = fieldKey root sub c p s fID idx \<and> map_of m (LogPath bl) = Some v
           \<and> LogSize bl = int (length v)"
proof -
  from insertInv_paths [OF assms(1,2)] obtain idx v n where
    fb: "fb = \<lparr>FieldID = fID, Binlogs = [\<lparr>EntriesNum = n,
                          LogPath = fieldKey root sub c p s fID idx,
                          LogSize = int (length (v::bytes))\<rparr>]\<rparr>"
    and mo: "map_of m (fieldKey root sub c p s fID idx) = Some v"
    by blast
  from assms(3) have "bl = \<lparr>EntriesNum = n, LogPath = fieldKey root sub c p s fID idx,
                          LogSize = int (length v)\<rparr>"
    unfolding fb by simp
  then show ?thesis using mo by auto
qed

lemma returned_pair:
  "(case r of (Some (Some a, None), w, ev) \<Rightarrow> True | _ \<Rightarrow> False) \<Longrightarrow>
   \<exists>a w ev. r = (Some (Some a, None), w, ev)"
  by (cases r) (auto split: option.splits)

lemma returned_triple:
  "(case r of (Some (a, Some c, None), w, ev) \<Rightarrow> True | _ \<Rightarrow> False) \<Longrightarrow>
   \<exists>a c w ev. r = (Some (a, Some c, None), w, ev)"
  by (cases r) (auto split: option.splits)

subsection \<open>The read tasks under any schedule\<close>

lemma readsOf_append: "readsOf i (xs @ ys) = readsOf i xs @ readsOf i ys"
  by (induction i xs rule: readsOf.induct) simp_all

lemma readInv_step:
  assumes "readInv b isRetryErr p t rs" and "readStep b isRetryErr i w t = (w', t', ev)"
  shows "readInv b isRetryErr p t' (rs @ readsOf i ev)"
proof (cases t)
  case (ReadDone r)
  then show ?thesis using assms by (simp add: readStep_def)
next
  case (ReadPending q made)
  obtain r st' where rd: "Read b (store w) (ctxDone w) q = (r, st')"
    by (cases "Read b (store w) (ctxDone w) q")
  from assms(1) ReadPending have q: "q = p" and made: "made = length rs" "made < 3"
    and la: "list_all (retryableFailure isRetryErr) rs"
    and ps: "list_all (\<lambda>(q, r). q = p \<and> (\<exists>st c. r = fst (Read b st c p))) rs"
    by (simp_all add: readInv_def)
  have ev: "ev = [ReadCall i q r]"
    and t': "t' = (case r of Inr val \<Rightarrow> ReadDone (Inr val)
                   | Inl e \<Rightarrow> if retryAgain 3 isRetryErr (Suc made) e
                              then ReadPending q (Suc made) else ReadDone (Inl e))"
    using assms(2) unfolding readStep_def ReadPending by (simp_all add: rd)
  have src: "\<exists>st c. r = fst (Read b st c p)"
    using rd q by (metis fst_conv)
  have ps': "list_all (\<lambda>(q, r). q = p \<and> (\<exists>st c. r = fst (Read b st c p))) (rs @ [(q, r)])"
    using ps src q by simp
  show ?thesis
  proof (cases r)
    case (Inr val)
    then show ?thesis
      using ps' la made unfolding readInv_def ev t' by simp
  next
    case (Inl e)
    show ?thesis
    proof (cases "retryAgain 3 isRetryErr (Suc made) e")
      case True
      then show ?thesis
        using ps' la made q Inl unfolding readInv_def ev t' by (simp add: retryAgain_def)
    next
      case False
      then have "\<not> isRetryErr e \<or> length rs = 2"
        using made by (auto simp: retryAgain_def)
      then show ?thesis
        using False ps' la made q Inl unfolding readInv_def ev t' by auto
    qed
  qed
qed

lemma readStep_others:
  "readStep b isRetryErr i w t = (w', t', ev) \<Longrightarrow> j \<noteq> i \<Longrightarrow> readsOf j ev = []"
  unfolding readStep_def by (auto split: readFuture.splits prod.splits)

lemma readStep_pending:
  "readStep b isRetryErr i w (ReadPending q made) = (w', ReadPending q' made', ev) \<Longrightarrow>
   q' = q \<and> made' = Suc made"
  unfolding readStep_def by (auto split: prod.splits sum.splits if_splits)

lemma readStep_done:
  "readStep b isRetryErr i w (ReadDone r) = (w', t', ev) \<Longrightarrow> t' = ReadDone r"
  unfolding readStep_def by simp

lemma readsInv_init:
  "readsInv b isRetryErr paths [] (w, map (\<lambda>p. ReadPending p 0) paths, [])"
  by (simp add: readsInv_def readInv_def)

lemma readsInv_step:
  assumes "readsInv b isRetryErr paths sch s"
  shows "readsInv b isRetryErr paths (sch @ [a]) (sysStep (readStep b isRetryErr) s a)"
proof -
  obtain w ts evs where s: "s = (w, ts, evs)" by (cases s)
  from assms have len: "length ts = length paths"
    and inv: "\<And>i. i < length paths \<Longrightarrow> readInv b isRetryErr (paths ! i) (ts ! i) (readsOf i evs)"
    and cnt: "\<And>i q made. i < length paths \<Longrightarrow> ts ! i = ReadPending q made \<Longrightarrow> made = count_list sch (Run i)"
    unfolding s readsInv_def by auto
  show ?thesis
  proof (cases a)
    case CancelCtx
    then show ?thesis using len inv cnt unfolding s readsInv_def sysStep_def by simp
  next
    case (Run i)
    show ?thesis
    proof (cases "i < length ts")
      case False
      then have "\<And>j. j < length paths \<Longrightarrow> Run j \<noteq> Run i" using len by auto
      then show ?thesis using False len inv cnt unfolding s readsInv_def sysStep_def Run by simp
    next
      case True
      obtain w1 t1 ev1 where st: "readStep b isRetryErr i w (ts ! i) = (w1, t1, ev1)"
        by (cases "readStep b isRetryErr i w (ts ! i)")
      have step: "sysStep (readStep b isRetryErr) s (Run i) = (w1, ts[i := t1], evs @ ev1)"
        unfolding s sysStep_def using True by (simp add: st)
      have "readInv b isRetryErr (paths ! j) (ts[i := t1] ! j) (readsOf j (evs @ ev1)) \<and>
            (\<forall>q made. ts[i := t1] ! j = ReadPending q made \<longrightarrow> made = count_list (sch @ [Run i]) (Run j))"
        if j: "j < length paths" for j
      proof (cases "j = i")
        case True
        have a: "readInv b isRetryErr (paths ! i) t1 (readsOf i evs @ readsOf i ev1)"
          using inv [OF j [unfolded True]] st by (rule readInv_step)
        have b: "made' = Suc (count_list sch (Run i))" if "t1 = ReadPending q' made'" for q' made'
        proof (cases "ts ! i")
          case (ReadPending q made)
          then have "made = count_list sch (Run i)" using cnt j True by blast
          moreover have "made' = Suc made"
            using st that readStep_pending unfolding ReadPending by blast
          ultimately show ?thesis by simp
        next
          case (ReadDone r)
          then show ?thesis using st that readStep_done by fastforce
        qed
        show ?thesis using a b True j len by (simp add: readsOf_append)
      next
        case False
        have "readsOf j ev1 = []" using st False by (rule readStep_others)
        then show ?thesis using False inv [OF j] cnt [OF j] by (simp add: readsOf_append)
      qed
      then show ?thesis unfolding Run step readsInv_def using len by simp
    qed
  qed
qed

lemma runReads_inv:
  "readsInv b isRetryErr paths sch
     (runTasks (readStep b isRetryErr) sch w (map (\<lambda>p. ReadPending p 0) paths))"
proof (induction sch rule: rev_induct)
  case Nil
  then show ?case by (simp add: runTasks_Nil readsInv_init)
next
  case (snoc a sch)
  then show ?case unfolding runTasks_snoc by (rule readsInv_step)
qed

lemma readsOf_submitReads_aux:
  "readsOf i (map (\<lambda>(i, p). SubmitRead i p) (enumerate n paths)) = []"
  by (induction paths arbitrary: n) auto

lemma readsOf_submitReads: "readsOf i (submitReads paths) = []"
  unfolding submitReads_def by (rule readsOf_submitReads_aux)

lemma collect_success:
  "collectFutures fs n resp = Some (Some blobs, None) \<Longrightarrow> n + length fs \<le> length resp \<Longrightarrow>
   length blobs = length resp \<and>
   (\<forall>i < length fs. \<exists>val. fs ! i = ReadDone (Inr val) \<and>
        blobs ! (n + i) = Some \<lparr>Key = [], Value = val, RowNum = 0\<rparr>) \<and>
   (\<forall>k < n. blobs ! k = resp ! k)"
proof (induction fs n resp rule: collectFutures.induct)
  case (1 i resp)
  then show ?case by simp
next
  case (2 p k fs i resp)
  then show ?case by simp
next
  case (3 e fs i resp)
  then show ?case by simp
next
  case (4 val fs i resp)
  let ?resp = "resp[i := Some \<lparr>Key = [], Value = val, RowNum = 0\<rparr>]"
  from 4 have ih: "length blobs = length ?resp \<and>
     (\<forall>j < length fs. \<exists>val. fs ! j = ReadDone (Inr val) \<and>
        blobs ! (Suc i + j) = Some \<lparr>Key = [], Value = val, RowNum = 0\<rparr>) \<and>
     (\<forall>k < Suc i. blobs ! k = ?resp ! k)"
    by simp
  have i: "i < length resp" using 4(3) by simp
  have a: "\<exists>val'. (ReadDone (Inr val) # fs) ! j = ReadDone (Inr val') \<and>
        blobs ! (i + j) = Some \<lparr>Key = [], Value = val', RowNum = 0\<rparr>"
    if "j < length (ReadDone (Inr val) # fs)" for j
  proof (cases j)
    case 0
    from ih have "blobs ! i = ?resp ! i" by simp
    then show ?thesis using 0 i by simp
  next
    case (Suc j')
    then show ?thesis using ih that by simp
  qed
  have b: "blobs ! k = resp ! k" if "k < i" for k
  proof -
    from ih that have "blobs ! k = ?resp ! k" by simp
    then show ?thesis using that by simp
  qed
  show ?case using ih a b by simp
qed

lemma collect_failure:
  "collectFutures fs n resp = Some (blobs, err) \<Longrightarrow> i < length fs \<Longrightarrow> fs ! i = ReadDone (Inl e) \<Longrightarrow>
   blobs = None \<and> (\<exists>j \<le> i. \<exists>e'. fs ! j = ReadDone (Inl e') \<and> err = Some (External e'))"
proof (induction fs n resp arbitrary: i rule: collectFutures.induct)
  case (1 n resp)
  then show ?case by simp
next
  case (2 p k fs n resp)
  then show ?case by simp
next
  case (3 e' fs n resp)
  then show ?case by auto
next
  case (4 val fs n resp)
  from 4(4) obtain i' where i': "i = Suc i'" by (cases i) auto
  with 4 have "blobs = None \<and> (\<exists>j \<le> i'. \<exists>e'. fs ! j = ReadDone (Inl e') \<and> err = Some (External e'))"
    by simp
  then obtain j e' where "j \<le> i'" "fs ! j = ReadDone (Inl e')" "err = Some (External e')" "blobs = None"
    by blast
  then have "Suc j \<le> i \<and> (ReadDone (Inr val) # fs) ! Suc j = ReadDone (Inl e') \<and> err = Some (External e')"
    using i' by simp
  then show ?case using \<open>blobs = None\<close> by blast
qed

lemma collect_returns:
  "\<forall>t \<in> set fs. \<exists>r. t = ReadDone r \<Longrightarrow> collectFutures fs n resp \<noteq> None"
  by (induction fs n resp rule: collectFutures.induct) auto

lemma download_run:
  assumes "paths \<noteq> []"
    and "runTasks (readStep b (IsRetryableErr x)) sch w (map (\<lambda>p. ReadPending p 0) paths) = (w1, ts, ev1)"
  shows "download b x sch w paths
           = (collectFutures ts 0 (replicate (length paths) None), w1, submitReads paths @ ev1)"
  using assms by (simp add: download_def)

lemma download_inv:
  assumes "runTasks (readStep b (IsRetryableErr x)) sch w (map (\<lambda>p. ReadPending p 0) paths) = (w1, ts, ev1)"
    and "i < length paths"
  shows "length ts = length paths"
    and "readInv b (IsRetryableErr x) (paths ! i) (ts ! i) (readsOf i ev1)"
    and "ts ! i = ReadPending q made \<Longrightarrow> made = count_list sch (Run i)"
  using runReads_inv [of b "IsRetryableErr x" paths sch w] assms
  unfolding readsInv_def by auto

lemma collect_first_failure:
  "collectFutures fs n resp = Some (blobs, err) \<Longrightarrow> i < length fs \<Longrightarrow> fs ! i = ReadDone (Inl e) \<Longrightarrow>
   blobs = None \<and> (\<exists>j \<le> i. \<exists>e'. fs ! j = ReadDone (Inl e') \<and> err = Some (External e') \<and>
                      (\<forall>k < j. \<exists>val. fs ! k = ReadDone (Inr val)))"
proof (induction fs n resp arbitrary: i rule: collectFutures.induct)
  case (1 n resp)
  then show ?case by simp
next
  case (2 p k fs n resp)
  then show ?case by simp
next
  case (3 e' fs n resp)
  then show ?case by auto
next
  case (4 val fs n resp)
  from 4(4) obtain i' where i': "i = Suc i'" by (cases i) auto
  with 4 have "blobs = None \<and> (\<exists>j \<le> i'. \<exists>e'. fs ! j = ReadDone (Inl e') \<and> err = Some (External e') \<and>
                      (\<forall>k < j. \<exists>val. fs ! k = ReadDone (Inr val)))"
    by simp
  then obtain j e' where j: "j \<le> i'" "fs ! j = ReadDone (Inl e')" "err = Some (External e')" "blobs = None"
    "\<forall>k < j. \<exists>val. fs ! k = ReadDone (Inr val)"
    by blast
  have "\<forall>k < Suc j. \<exists>val'. (ReadDone (Inr val) # fs) ! k = ReadDone (Inr val')"
    using j(5) by (auto simp: nth_Cons split: nat.splits)
  then have "Suc j \<le> i \<and> (ReadDone (Inr val) # fs) ! Suc j = ReadDone (Inl e') \<and> err = Some (External e') \<and>
     (\<forall>k < Suc j. \<exists>val'. (ReadDone (Inr val) # fs) ! k = ReadDone (Inr val'))"
    using i' j by simp
  then show ?case using \<open>blobs = None\<close> by blast
qed

text \<open>What the reads of one task look like, whatever the schedule.\<close>

lemma download_reads:
  assumes "download b x sch w paths = (res, w', evs)" and "i < length paths"
  shows "\<exists>w1 ts ev1.
           runTasks (readStep b (IsRetryableErr x)) sch w (map (\<lambda>p. ReadPending p 0) paths) = (w1, ts, ev1) \<and>
           res = collectFutures ts 0 (replicate (length paths) None) \<and>
           readsOf i evs = readsOf i ev1 \<and> length ts = length paths \<and>
           readInv b (IsRetryableErr x) (paths ! i) (ts ! i) (readsOf i evs) \<and>
           (\<forall>q made. ts ! i = ReadPending q made \<longrightarrow> made = count_list sch (Run i))"
proof -
  from assms(2) have ne: "paths \<noteq> []" by auto
  obtain w1 ts ev1 where run:
    "runTasks (readStep b (IsRetryableErr x)) sch w (map (\<lambda>p. ReadPending p 0) paths) = (w1, ts, ev1)"
    by (cases "runTasks (readStep b (IsRetryableErr x)) sch w (map (\<lambda>p. ReadPending p 0) paths)")
  from assms(1) download_run [OF ne run]
  have res: "res = collectFutures ts 0 (replicate (length paths) None)"
    and evs: "evs = submitReads paths @ ev1" by simp_all
  have r: "readsOf i evs = readsOf i ev1"
    unfolding evs by (simp add: readsOf_append readsOf_submitReads)
  show ?thesis
    using run res r download_inv [OF run assms(2)] by auto
qed

lemma readInv_final_failure:
  assumes "readInv b isRetryErr p t rs" "rs \<noteq> []" "snd (last rs) = Inl e"
    "\<not> isRetryErr e \<or> length rs = 3"
  shows "t = ReadDone (Inl e)"
proof (cases t)
  case (ReadPending q made)
  with assms(1) have "length rs < 3" "list_all (retryableFailure isRetryErr) rs"
    by (simp_all add: readInv_def)
  moreover have "last rs \<in> set rs" using assms(2) by simp
  ultimately have "retryableFailure isRetryErr (last rs)" "length rs \<noteq> 3"
    by (auto simp: list_all_iff)
  then show ?thesis using assms(3,4) by (cases "last rs") auto
next
  case (ReadDone r)
  then show ?thesis using assms(1,3) by (simp add: readInv_def)
qed

lemma readInv_done_failure:
  assumes "readInv b isRetryErr p (ReadDone (Inl e)) rs"
  shows "rs \<noteq> [] \<and> snd (last rs) = Inl e \<and> (\<not> isRetryErr e \<or> length rs = 3)"
  using assms by (simp add: readInv_def)

lemma readInv_done_success:
  assumes "readInv b isRetryErr p (ReadDone (Inr val)) rs"
  shows "rs \<noteq> [] \<and> snd (last rs) = Inr val"
  using assms by (simp add: readInv_def)

lemma readInv_attempts:
  assumes "readInv b isRetryErr p t rs"
  shows "length rs \<le> 3" and "\<forall>(q, r) \<in> set rs. q = p"
    and "\<forall>k. Suc k < length rs \<longrightarrow> (\<exists>e. snd (rs ! k) = Inl e \<and> isRetryErr e)"
proof -
  show "length rs \<le> 3" using assms by (cases t) (simp_all add: readInv_def)
  show "\<forall>(q, r) \<in> set rs. q = p" using assms by (auto simp: readInv_def list_all_iff)
  have bl: "list_all (retryableFailure isRetryErr) (butlast rs)"
  proof (cases t)
    case (ReadPending q made)
    with assms have "list_all (retryableFailure isRetryErr) rs" by (simp add: readInv_def)
    then show ?thesis by (auto simp: list_all_iff dest: in_set_butlastD)
  next
    case (ReadDone r)
    then show ?thesis using assms by (simp add: readInv_def)
  qed
  show "\<forall>k. Suc k < length rs \<longrightarrow> (\<exists>e. snd (rs ! k) = Inl e \<and> isRetryErr e)"
  proof (intro allI impI)
    fix k assume k: "Suc k < length rs"
    then have "k < length (butlast rs)" by simp
    then have "butlast rs ! k \<in> set (butlast rs)" by (rule nth_mem)
    moreover have "butlast rs ! k = rs ! k" using k by (simp add: nth_butlast)
    ultimately have "retryableFailure isRetryErr (rs ! k)" using bl by (auto simp: list_all_iff)
    moreover obtain q r where "rs ! k = (q, r)" by (cases "rs ! k")
    ultimately show "\<exists>e. snd (rs ! k) = Inl e \<and> isRetryErr e"
      by (cases r) auto
  qed
qed

subsection \<open>The write tasks under any schedule\<close>

lemma taskEvents_append: "taskEvents i (xs @ ys) = taskEvents i xs @ taskEvents i ys"
  by (simp add: taskEvents_def)

lemma taskEvents_Nil: "taskEvents i [] = []"
  by (simp add: taskEvents_def)

lemma writesOf_append: "writesOf i (xs @ ys) = writesOf i xs @ writesOf i ys"
  by (induction i xs rule: writesOf.induct) simp_all

lemma writeStep_own_events:
  assumes "writeStep b i w t = (w', t', ev)"
  shows "taskEvents i ev = ev" and "j \<noteq> i \<Longrightarrow> taskEvents j ev = []" and "j \<noteq> i \<Longrightarrow> writesOf j ev = []"
  using assms unfolding writeStep_def taskEvents_def
  by (auto split: writeFuture.splits if_splits prod.splits option.splits)

lemma writeStep_discipline:
  assumes "writeStep b i w t = (w', t', ev)" and "phaseOf kv t \<noteq> Violated"
  shows "foldl (discipline i kv) (phaseOf kv t) ev = phaseOf kv t'"
proof (cases t)
  case (WriteDone r)
  then show ?thesis using assms by (simp add: writeStep_def)
next
  case (AtWrite p v)
  obtain r st' where wr: "Write b (store w) (ctxDone w) p v = (r, st')"
    by (cases "Write b (store w) (ctxDone w) p v")
  from assms(2) AtWrite have kv: "(p, v) = kv" by (simp split: if_splits)
  show ?thesis
    using assms(1) kv unfolding writeStep_def AtWrite
    by (cases r) (auto simp: wr)
next
  case (AtSelect p v err)
  from assms(2) AtSelect have kv: "(p, v) = kv" by (cases err) (simp_all split: if_splits)
  show ?thesis
    using assms(1) kv unfolding writeStep_def AtSelect
    by (cases err) (auto split: if_splits)
qed

lemma writeStep_phase_ok:
  assumes "writeStep b i w t = (w', t', ev)" and "phaseOf kv t \<noteq> Violated"
  shows "phaseOf kv t' \<noteq> Violated"
proof (cases t)
  case (WriteDone r)
  then show ?thesis using assms by (simp add: writeStep_def)
next
  case (AtWrite p v)
  obtain r st' where wr: "Write b (store w) (ctxDone w) p v = (r, st')"
    by (cases "Write b (store w) (ctxDone w) p v")
  from assms(2) AtWrite have kv: "(p, v) = kv" by (simp split: if_splits)
  show ?thesis
    using assms(1) kv unfolding writeStep_def AtWrite
    by (cases r) (auto simp: wr)
next
  case (AtSelect p v err)
  from assms(2) AtSelect have kv: "(p, v) = kv" by (cases err) (simp_all split: if_splits)
  show ?thesis
    using assms(1) kv unfolding writeStep_def AtSelect
    by (cases err) (auto split: if_splits)
qed

lemma foldl_discipline_Violated: "foldl (discipline i kv) Violated evs = Violated"
  by (induction evs) simp_all

lemma writesInv_init:
  "writesInv m (w, map (\<lambda>(key, val). AtSelect key val errStart) m, [])"
  by (auto simp: writesInv_def taskEvents_Nil case_prod_beta)

lemma writesInv_step:
  assumes "writesInv m s"
  shows "writesInv m (sysStep (writeStep b) s a)"
proof -
  obtain w ts evs where s: "s = (w, ts, evs)" by (cases s)
  from assms have len: "length ts = length m"
    and inv: "\<And>i. i < length m \<Longrightarrow>
        foldl (discipline i (m ! i)) (AwaitCheck True) (taskEvents i evs) = phaseOf (m ! i) (ts ! i)"
    and nv: "\<And>i. i < length m \<Longrightarrow> phaseOf (m ! i) (ts ! i) \<noteq> Violated"
    unfolding s writesInv_def by auto
  show ?thesis
  proof (cases a)
    case CancelCtx
    then show ?thesis using len inv nv unfolding s writesInv_def sysStep_def by simp
  next
    case (Run i)
    show ?thesis
    proof (cases "i < length ts")
      case False
      then show ?thesis using len inv nv unfolding s writesInv_def sysStep_def Run by simp
    next
      case True
      obtain w1 t1 ev1 where st: "writeStep b i w (ts ! i) = (w1, t1, ev1)"
        by (cases "writeStep b i w (ts ! i)")
      have step: "sysStep (writeStep b) s (Run i) = (w1, ts[i := t1], evs @ ev1)"
        unfolding s sysStep_def using True by (simp add: st)
      have il: "i < length m" using True len by simp
      have d: "foldl (discipline i (m ! i)) (phaseOf (m ! i) (ts ! i)) ev1 = phaseOf (m ! i) t1"
        using st nv [OF il] by (rule writeStep_discipline)
      have t1: "phaseOf (m ! i) t1 \<noteq> Violated"
        using st nv [OF il] by (rule writeStep_phase_ok)
      have "foldl (discipline j (m ! j)) (AwaitCheck True) (taskEvents j (evs @ ev1))
              = phaseOf (m ! j) (ts[i := t1] ! j) \<and> phaseOf (m ! j) (ts[i := t1] ! j) \<noteq> Violated"
        if j: "j < length m" for j
      proof (cases "j = i")
        case True
        show ?thesis
          using d t1 inv [OF il] il len writeStep_own_events(1) [OF st]
          unfolding True by (simp add: taskEvents_append)
      next
        case False
        have "taskEvents j ev1 = []" using st False by (rule writeStep_own_events(2))
        then show ?thesis using False inv [OF j] nv [OF j] by (simp add: taskEvents_append)
      qed
      then show ?thesis unfolding Run step writesInv_def using len by simp
    qed
  qed
qed

lemma foldl_sysStep_writesInv:
  "writesInv m s \<Longrightarrow> writesInv m (foldl (sysStep (writeStep b)) s sch)"
  by (induction sch arbitrary: s) (simp_all add: writesInv_step)

lemma runWrites_inv:
  "writesInv m (runTasks (writeStep b) sch w (map (\<lambda>(key, val). AtSelect key val errStart) m))"
  unfolding runTasks_def by (rule foldl_sysStep_writesInv) (rule writesInv_init)

lemma retryingInv_step:
  assumes "retryingInv sch i s" and "a \<noteq> CancelCtx" and "i < length (fst (snd s))"
  shows "retryingInv (sch @ [a]) i (sysStep (writeStep b) s a)"
proof -
  obtain w ts evs where s: "s = (w, ts, evs)" by (cases s)
  from assms(2) obtain j where a: "a = Run j" by (cases a) auto
  from assms(3) have il: "i < length ts" by (simp add: s)
  from assms(1) have nd: "\<not> ctxDone w"
    and inv: "list_all (\<lambda>r. r \<noteq> None) (writesOf i evs) \<Longrightarrow>
           length (writesOf i evs) = count_list sch (Run i) div 2 \<and>
           (case ts ! i of
              AtSelect p v err \<Rightarrow> even (count_list sch (Run i))
            | AtWrite p v \<Rightarrow> odd (count_list sch (Run i))
            | WriteDone r \<Rightarrow> False)"
    unfolding s retryingInv_def by auto
  show ?thesis
  proof (cases "j < length ts")
    case False
    then have "j \<noteq> i" using il by auto
    then have cnt: "count_list (sch @ [Run j]) (Run i) = count_list sch (Run i)" by simp
    show ?thesis using False nd inv unfolding a s retryingInv_def sysStep_def cnt by simp
  next
    case True
    obtain w1 t1 ev1 where st: "writeStep b j w (ts ! j) = (w1, t1, ev1)"
      by (cases "writeStep b j w (ts ! j)")
    have step: "sysStep (writeStep b) s (Run j) = (w1, ts[j := t1], evs @ ev1)"
      unfolding s sysStep_def using True by (simp add: st)
    have nd1: "\<not> ctxDone w1"
      using st nd unfolding writeStep_def
      by (auto split: writeFuture.splits if_splits prod.splits option.splits)
    show ?thesis
    proof (cases "j = i")
      case False
      have "writesOf i ev1 = []" using st False writeStep_own_events(3) by metis
      moreover have cnt: "count_list (sch @ [Run j]) (Run i) = count_list sch (Run i)"
        using False by simp
      ultimately show ?thesis
        using False nd1 inv unfolding a step retryingInv_def cnt by (simp add: writesOf_append)
    next
      case ji: True
      have "length (writesOf i (evs @ ev1)) = Suc (count_list sch (Run i)) div 2 \<and>
           (case t1 of
              AtSelect p v err \<Rightarrow> even (Suc (count_list sch (Run i)))
            | AtWrite p v \<Rightarrow> odd (Suc (count_list sch (Run i)))
            | WriteDone r \<Rightarrow> False)"
        if la: "list_all (\<lambda>r. r \<noteq> None) (writesOf i (evs @ ev1))"
      proof -
        from la have la0: "list_all (\<lambda>r. r \<noteq> None) (writesOf i evs)"
          and la1: "list_all (\<lambda>r. r \<noteq> None) (writesOf i ev1)"
          by (simp_all add: writesOf_append)
        note ih = inv [OF la0]
        show ?thesis
        proof (cases "ts ! i")
          case (WriteDone r)
          then show ?thesis using ih by simp
        next
          case (AtSelect p v err)
          then have "t1 = AtWrite p v" "writesOf i ev1 = []"
            using st nd unfolding ji writeStep_def by (auto split: if_splits)
          then show ?thesis using ih AtSelect by (simp add: writesOf_append)
        next
          case (AtWrite p v)
          obtain r st' where wr: "Write b (store w) (ctxDone w) p v = (r, st')"
            by (cases "Write b (store w) (ctxDone w) p v")
          from st have ev1: "ev1 = [WriteCall i p v r]"
            and t1: "t1 = (case r of None \<Rightarrow> WriteDone None | Some e \<Rightarrow> AtSelect p v (LastWriteErr e))"
            unfolding ji writeStep_def AtWrite by (simp_all add: wr)
          from la1 ev1 obtain e where r: "r = Some e" by auto
          from ih AtWrite have odd: "odd (count_list sch (Run i))"
            and len: "length (writesOf i evs) = count_list sch (Run i) div 2" by simp_all
          have "Suc (count_list sch (Run i) div 2) = Suc (count_list sch (Run i)) div 2"
            using odd by presburger
          then show ?thesis using odd len unfolding ev1 t1 r by (simp add: writesOf_append)
        qed
      qed
      moreover have cnt: "count_list (sch @ [Run i]) (Run i) = Suc (count_list sch (Run i))"
        by simp
      ultimately show ?thesis
        using nd1 il unfolding a ji step [unfolded ji] retryingInv_def cnt by simp
    qed
  qed
qed

lemma sysStep_length: "length (fst (snd (sysStep step s a))) = length (fst (snd s))"
  unfolding sysStep_def by (auto split: prod.splits sched.splits)

lemma foldl_sysStep_length: "length (fst (snd (foldl (sysStep step) s sch))) = length (fst (snd s))"
  by (induction sch arbitrary: s) (simp_all add: sysStep_length)

lemma runWrites_retrying:
  assumes "\<not> ctxDone w" and "CancelCtx \<notin> set sch" and "i < length m"
  shows "retryingInv sch i (runTasks (writeStep b) sch w (map (\<lambda>(key, val). AtSelect key val errStart) m))"
  using assms(2)
proof (induction sch rule: rev_induct)
  case Nil
  then show ?case using assms(1,3) by (simp add: runTasks_Nil retryingInv_def case_prod_beta)
next
  case (snoc a sch)
  then have ih: "retryingInv sch i (runTasks (writeStep b) sch w (map (\<lambda>(key, val). AtSelect key val errStart) m))"
    and a: "a \<noteq> CancelCtx" by auto
  have "length (fst (snd (runTasks (writeStep b) sch w (map (\<lambda>(key, val). AtSelect key val errStart) m)))) = length m"
    unfolding runTasks_def by (simp add: foldl_sysStep_length)
  then have "i < length (fst (snd (runTasks (writeStep b) sch w (map (\<lambda>(key, val). AtSelect key val errStart) m))))"
    using assms(3) by simp
  with ih a show ?case unfolding runTasks_snoc by (rule retryingInv_step)
qed

subsection \<open>Write tasks and cancellation\<close>

lemma sysStep_other_task:
  assumes "a \<noteq> Run i" and "sysStep (writeStep b) (w, ts, evs) a = (w1, ts1, evs1)"
  shows "ts1 ! i = ts ! i \<and> taskEvents i evs1 = taskEvents i evs \<and> writesOf i evs1 = writesOf i evs
         \<and> length ts1 = length ts"
proof (cases a)
  case CancelCtx
  then show ?thesis using assms(2) by (simp add: sysStep_def)
next
  case (Run j)
  with assms(1) have ji: "j \<noteq> i" by simp
  show ?thesis
  proof (cases "j < length ts")
    case False
    then show ?thesis using assms(2) by (simp add: sysStep_def Run)
  next
    case True
    obtain w' t' ev where st: "writeStep b j w (ts ! j) = (w', t', ev)"
      by (cases "writeStep b j w (ts ! j)")
    have "taskEvents i ev = []" "writesOf i ev = []"
      using writeStep_own_events(2,3) [OF st] ji by auto
    then show ?thesis
      using assms(2) True ji unfolding sysStep_def Run
      by (auto simp: st taskEvents_append writesOf_append)
  qed
qed

lemma foldl_not_scheduled:
  assumes "Run i \<notin> set sch" and "foldl (sysStep (writeStep b)) (w, ts, evs) sch = (w1, ts1, evs1)"
  shows "ts1 ! i = ts ! i \<and> taskEvents i evs1 = taskEvents i evs \<and> writesOf i evs1 = writesOf i evs
         \<and> length ts1 = length ts"
  using assms
proof (induction sch arbitrary: w1 ts1 evs1 rule: rev_induct)
  case Nil
  then show ?case by simp
next
  case (snoc a sch)
  obtain w' ts' evs' where mid: "foldl (sysStep (writeStep b)) (w, ts, evs) sch = (w', ts', evs')"
    by (cases "foldl (sysStep (writeStep b)) (w, ts, evs) sch")
  from snoc.prems(1) have a: "a \<noteq> Run i" and ns: "Run i \<notin> set sch" by auto
  from snoc.prems(2) have "sysStep (writeStep b) (w', ts', evs') a = (w1, ts1, evs1)"
    by (simp add: mid)
  from sysStep_other_task [OF a this] snoc.IH [OF ns mid] show ?case by simp
qed

lemma sysStep_ctxDone:
  "ctxDone (fst s) \<or> a = CancelCtx \<Longrightarrow> ctxDone (fst (sysStep (writeStep b) s a))"
  unfolding sysStep_def writeStep_def
  by (auto split: prod.splits sched.splits writeFuture.splits if_splits option.splits)

lemma foldl_ctxDone:
  "ctxDone (fst s) \<or> CancelCtx \<in> set sch \<Longrightarrow> ctxDone (fst (foldl (sysStep (writeStep b)) s sch))"
proof (induction sch rule: rev_induct)
  case Nil
  then show ?case by simp
next
  case (snoc a sch)
  then have "ctxDone (fst (foldl (sysStep (writeStep b)) s sch)) \<or> a = CancelCtx" by auto
  then show ?case by (simp add: sysStep_ctxDone)
qed

lemma cancelledTask_step:
  assumes "cancelledTask i p v evs0 sch s"
  shows "cancelledTask i p v evs0 (sch @ [a]) (sysStep (writeStep b) s a)"
proof -
  obtain w ts evs where s: "s = (w, ts, evs)" by (cases s)
  obtain w1 ts1 evs1 where n: "sysStep (writeStep b) (w, ts, evs) a = (w1, ts1, evs1)"
    by (cases "sysStep (writeStep b) (w, ts, evs) a")
  from assms have cd: "ctxDone w" and il: "i < length ts" and wr: "writesOf i evs = writesOf i evs0"
    and sched: "Run i \<in> set sch \<Longrightarrow> ts ! i = WriteDone (Some errUploadToBlobStorage) \<and>
              taskEvents i evs = taskEvents i evs0 @ [CtxDoneCheck i True]"
    and unsched: "Run i \<notin> set sch \<Longrightarrow> ts ! i = AtSelect p v errStart \<and> taskEvents i evs = taskEvents i evs0"
    unfolding s cancelledTask_def by (auto split: if_splits)
  have cd1: "ctxDone w1"
    using sysStep_ctxDone [of "(w, ts, evs)" a b] cd n by simp
  show ?thesis
  proof (cases "a = Run i")
    case False
    from sysStep_other_task [OF False n]
    have "ts1 ! i = ts ! i" "taskEvents i evs1 = taskEvents i evs" "writesOf i evs1 = writesOf i evs"
      "length ts1 = length ts" by simp_all
    moreover have "Run i \<in> set (sch @ [a]) \<longleftrightarrow> Run i \<in> set sch" using False by auto
    ultimately show ?thesis
      using cd1 il wr sched unsched unfolding s n cancelledTask_def by simp
  next
    case True
    show ?thesis
    proof (cases "Run i \<in> set sch")
      case was: True
      from sched [OF was] have t: "ts ! i = WriteDone (Some errUploadToBlobStorage)"
        and te: "taskEvents i evs = taskEvents i evs0 @ [CtxDoneCheck i True]" by simp_all
      from n have "w1 = w" "ts1 = ts[i := ts ! i]" "evs1 = evs"
        unfolding True sysStep_def using il t by (simp_all add: writeStep_def)
      then show ?thesis
        using cd il wr t te was unfolding s True n [unfolded True] cancelledTask_def by simp
    next
      case first: False
      from unsched [OF first] have t: "ts ! i = AtSelect p v errStart"
        and te: "taskEvents i evs = taskEvents i evs0" by simp_all
      from n have "w1 = w" "ts1 = ts[i := WriteDone (Some errUploadToBlobStorage)]"
        "evs1 = evs @ [CtxDoneCheck i True]"
        unfolding True sysStep_def using il t cd by (simp_all add: writeStep_def)
      then show ?thesis
        using cd il wr te unfolding s True n [unfolded True] cancelledTask_def
        by (simp add: taskEvents_append writesOf_append taskEvents_def)
    qed
  qed
qed

lemma foldl_cancelledTask:
  assumes "cancelledTask i p v evs0 [] s"
  shows "cancelledTask i p v evs0 sch (foldl (sysStep (writeStep b)) s sch)"
proof (induction sch rule: rev_induct)
  case Nil
  then show ?case using assms by simp
next
  case (snoc a sch)
  then show ?case by (simp add: cancelledTask_step)
qed

lemma cancelledCall_step:
  assumes "cancelledCall st0 sch s"
  shows "cancelledCall st0 (sch @ [a]) (sysStep (writeStep b) s a)"
proof -
  obtain w ts evs where s: "s = (w, ts, evs)" by (cases s)
  from assms have cd: "ctxDone w" and st: "store w = st0" and wc: "writeCalls evs = []"
    and each: "\<And>i. i < length ts \<Longrightarrow>
           (if Run i \<in> set sch then ts ! i = WriteDone (Some errUploadToBlobStorage)
            else (\<exists>p v. ts ! i = AtSelect p v errStart))"
    unfolding s cancelledCall_def by auto
  show ?thesis
  proof (cases a)
    case CancelCtx
    then show ?thesis using cd st wc each unfolding s cancelledCall_def sysStep_def by simp
  next
    case (Run j)
    show ?thesis
    proof (cases "j < length ts")
      case False
      then have "\<And>i. i < length ts \<Longrightarrow> (Run i \<in> set (sch @ [Run j]) \<longleftrightarrow> Run i \<in> set sch)"
        by auto
      then show ?thesis
        using False cd st wc each unfolding s Run cancelledCall_def sysStep_def by simp
    next
      case True
      have step: "sysStep (writeStep b) (w, ts, evs) (Run j)
           = (w, ts[j := WriteDone (Some errUploadToBlobStorage)],
              evs @ (if Run j \<in> set sch then [] else [CtxDoneCheck j True]))"
      proof (cases "Run j \<in> set sch")
        case True
        with each [OF \<open>j < length ts\<close>] have t: "ts ! j = WriteDone (Some errUploadToBlobStorage)" by simp
        then have "ts[j := WriteDone (Some errUploadToBlobStorage)] = ts"
          by (metis list_update_id)
        then show ?thesis using True t \<open>j < length ts\<close> by (simp add: sysStep_def writeStep_def)
      next
        case False
        with each [OF \<open>j < length ts\<close>] obtain p v where t: "ts ! j = AtSelect p v errStart" by auto
        then show ?thesis using False cd \<open>j < length ts\<close> by (simp add: sysStep_def writeStep_def)
      qed
      have wc1: "writeCalls (evs @ (if Run j \<in> set sch then [] else [CtxDoneCheck j True])) = []"
        using wc by (simp add: writeCalls_append)
      have "(if Run i \<in> set (sch @ [Run j])
             then ts[j := WriteDone (Some errUploadToBlobStorage)] ! i = WriteDone (Some errUploadToBlobStorage)
             else (\<exists>p v. ts[j := WriteDone (Some errUploadToBlobStorage)] ! i = AtSelect p v errStart))"
        if "i < length ts" for i
        using each [OF that] that by (cases "i = j") auto
      note pi = this
      have all: "\<forall>i < length (ts[j := WriteDone (Some errUploadToBlobStorage)]).
             if Run i \<in> set (sch @ [Run j])
             then ts[j := WriteDone (Some errUploadToBlobStorage)] ! i = WriteDone (Some errUploadToBlobStorage)
             else (\<exists>p v. ts[j := WriteDone (Some errUploadToBlobStorage)] ! i = AtSelect p v errStart)"
      proof (intro allI impI)
        fix i assume "i < length (ts[j := WriteDone (Some errUploadToBlobStorage)])"
        then have "i < length ts" by simp
        then show "if Run i \<in> set (sch @ [Run j])
             then ts[j := WriteDone (Some errUploadToBlobStorage)] ! i = WriteDone (Some errUploadToBlobStorage)
             else (\<exists>p v. ts[j := WriteDone (Some errUploadToBlobStorage)] ! i = AtSelect p v errStart)"
          by (rule pi)
      qed
      show ?thesis
        unfolding s Run step cancelledCall_def prod.case
        by (intro conjI cd st wc1 all)
    qed
  qed
qed

lemma foldl_cancelledCall:
  assumes "cancelledCall st0 [] s"
  shows "cancelledCall st0 sch (foldl (sysStep (writeStep b)) s sch)"
proof (induction sch rule: rev_induct)
  case Nil
  then show ?case using assms by simp
next
  case (snoc a sch)
  then show ?case by (simp add: cancelledCall_step)
qed

lemma discipline_cancelled:
  "discipline i kv ph ev = StoppedCancelled \<Longrightarrow> ev = CtxDoneCheck i True"
  by (cases "(i, kv, ph, ev)" rule: discipline.cases) (auto split: if_splits option.splits)

lemma discipline_fired:
  "discipline i kv ph (CtxDoneCheck i True) \<noteq> Violated \<Longrightarrow>
   discipline i kv ph (CtxDoneCheck i True) = StoppedCancelled"
  by (cases ph) auto

lemma foldl_discipline_cancelled:
  assumes "foldl (discipline i kv) (AwaitCheck True) evs \<noteq> Violated"
  shows "foldl (discipline i kv) (AwaitCheck True) evs = StoppedCancelled
         \<longleftrightarrow> evs \<noteq> [] \<and> last evs = CtxDoneCheck i True"
proof (cases evs rule: rev_cases)
  case Nil
  then show ?thesis by simp
next
  case (snoc es e)
  then show ?thesis using assms discipline_cancelled discipline_fired by fastforce
qed

lemma writeCalls_submitWrites_aux:
  "writeCalls (map (\<lambda>(i, key, val). SubmitWrite i key val) (enumerate n m)) = []"
  by (induction m arbitrary: n) auto

lemma writeCalls_submitWrites: "writeCalls (submitWrites m) = []"
  unfolding submitWrites_def by (rule writeCalls_submitWrites_aux)

lemma futureErrs_cancelled:
  "\<forall>t \<in> set ts. t = WriteDone (Some errUploadToBlobStorage) \<Longrightarrow>
   futureErrs ts = replicate (length ts) errUploadToBlobStorage"
  by (induction ts) auto

lemma AwaitAll_all_cancelled:
  assumes "ts \<noteq> []" and "\<forall>t \<in> set ts. t = WriteDone (Some errUploadToBlobStorage)"
  shows "AwaitAll ts = Some (Some errUploadToBlobStorage)"
proof -
  have "list_all isDone ts" using assms(2) by (auto simp: list_all_iff)
  moreover obtain n where "length ts = Suc n" using assms(1) by (cases ts) auto
  ultimately show ?thesis
    unfolding AwaitAll_def futureErrs_cancelled [OF assms(2)] by simp
qed

lemma AwaitAll_pending: "t \<in> set ts \<Longrightarrow> \<not> isDone t \<Longrightarrow> AwaitAll ts = None"
  unfolding AwaitAll_def by (auto simp: list_all_iff)

lemma first_event_is_check:
  assumes "foldl (discipline i kv) (AwaitCheck True) evs \<noteq> Violated" and "evs \<noteq> []"
  shows "\<exists>c. hd evs = CtxDoneCheck i c"
proof -
  from assms(2) obtain e es where evs: "evs = e # es" by (cases evs) auto
  have "discipline i kv (AwaitCheck True) e \<noteq> Violated"
    using assms(1) foldl_discipline_Violated [of i kv es] unfolding evs by auto
  then show ?thesis unfolding evs by (cases e) (auto split: if_splits)
qed

lemma sysStep_ctxDone_iff:
  "ctxDone (fst (sysStep (writeStep b) s a)) \<longleftrightarrow> ctxDone (fst s) \<or> a = CancelCtx"
  unfolding sysStep_def writeStep_def
  by (auto split: prod.splits sched.splits writeFuture.splits if_splits option.splits)

lemma foldl_ctxDone_iff:
  "ctxDone (fst (foldl (sysStep (writeStep b)) s sch)) \<longleftrightarrow> ctxDone (fst s) \<or> CancelCtx \<in> set sch"
  by (induction sch rule: rev_induct) (auto simp: sysStep_ctxDone_iff)

lemma discipline_failedWrite:
  assumes "discipline i kv ph ev \<noteq> Violated" and "failedWrite i ev"
  shows "discipline i kv ph ev = AwaitCheck False"
  using assms
  by (cases "(i, kv, ph, ev)" rule: discipline.cases) (auto split: if_splits option.splits)

lemma foldl_discipline_head:
  assumes "foldl (discipline i kv) (AwaitCheck True) evs \<noteq> Violated"
    and "evs = [] \<or> failedWrite i (last evs)"
  shows "foldl (discipline i kv) (AwaitCheck True) evs = AwaitCheck (evs = [])"
proof (cases evs rule: rev_cases)
  case Nil
  then show ?thesis by simp
next
  case (snoc es e)
  with assms(2) have f: "failedWrite i e" by simp
  from assms(1) have "discipline i kv (foldl (discipline i kv) (AwaitCheck True) es) e \<noteq> Violated"
    unfolding snoc by simp
  from discipline_failedWrite [OF this f] show ?thesis unfolding snoc by simp
qed

lemma phaseOf_head:
  assumes "phaseOf kv t = AwaitCheck first"
  shows "\<exists>err. t = AtSelect (fst kv) (snd kv) err \<and> (err = errStart \<longleftrightarrow> first)"
  using assms
  by (cases "(kv, t)" rule: phaseOf.cases) (auto split: if_splits)

lemma foldl_done_task:
  assumes "ts ! i = WriteDone r" and "i < length ts"
    and "foldl (sysStep (writeStep b)) (w, ts, evs) sch = (w1, ts1, evs1)"
  shows "ts1 ! i = WriteDone r \<and> taskEvents i evs1 = taskEvents i evs \<and> writesOf i evs1 = writesOf i evs
         \<and> length ts1 = length ts"
  using assms(3)
proof (induction sch arbitrary: w1 ts1 evs1 rule: rev_induct)
  case Nil
  then show ?case using assms(1) by simp
next
  case (snoc a sch)
  obtain w' ts' evs' where mid: "foldl (sysStep (writeStep b)) (w, ts, evs) sch = (w', ts', evs')"
    by (cases "foldl (sysStep (writeStep b)) (w, ts, evs) sch")
  from snoc.IH [OF mid] have ih: "ts' ! i = WriteDone r" "taskEvents i evs' = taskEvents i evs"
    "writesOf i evs' = writesOf i evs" "length ts' = length ts" by simp_all
  from snoc.prems have n: "sysStep (writeStep b) (w', ts', evs') a = (w1, ts1, evs1)"
    by (simp add: mid)
  show ?case
  proof (cases "a = Run i")
    case False
    from sysStep_other_task [OF False n] ih show ?thesis by simp
  next
    case True
    from n have "w1 = w'" "ts1 = ts'[i := ts' ! i]" "evs1 = evs'"
      unfolding True sysStep_def using ih(1,4) assms(2) by (simp_all add: writeStep_def)
    then show ?thesis using ih assms(2) by simp
  qed
qed

lemma sysStep_own_events:
  assumes "sysStep (writeStep b) (w, ts, evs) (Run i) = (w1, ts1, evs1)"
  shows "\<exists>ev. evs1 = evs @ ev \<and> taskEvents i ev = ev \<and> length ts1 = length ts"
proof (cases "i < length ts")
  case False
  then show ?thesis using assms by (simp add: sysStep_def taskEvents_Nil)
next
  case True
  obtain w' t' ev where st: "writeStep b i w (ts ! i) = (w', t', ev)"
    by (cases "writeStep b i w (ts ! i)")
  from assms True have "evs1 = evs @ ev" "length ts1 = length ts"
    unfolding sysStep_def by (auto simp: st)
  then show ?thesis using writeStep_own_events(1) [OF st] by blast
qed

lemma foldl_at_write:
  assumes "ts ! i = AtWrite p v" and "i < length ts"
    and "foldl (sysStep (writeStep b)) (w, ts, evs) sch = (w1, ts1, evs1)"
  shows "length ts1 = length ts \<and>
         (\<exists>rest. taskEvents i evs1 = taskEvents i evs @ rest \<and>
            (if Run i \<in> set sch then \<exists>r rest'. rest = WriteCall i p v r # rest'
             else rest = [] \<and> ts1 ! i = AtWrite p v))"
  using assms(3)
proof (induction sch arbitrary: w1 ts1 evs1 rule: rev_induct)
  case Nil
  then show ?case using assms(1) by simp
next
  case (snoc a sch)
  obtain w' ts' evs' where mid: "foldl (sysStep (writeStep b)) (w, ts, evs) sch = (w', ts', evs')"
    by (cases "foldl (sysStep (writeStep b)) (w, ts, evs) sch")
  from snoc.IH [OF mid] obtain rest where len: "length ts' = length ts"
    and te: "taskEvents i evs' = taskEvents i evs @ rest"
    and was: "Run i \<in> set sch \<Longrightarrow> \<exists>r rest'. rest = WriteCall i p v r # rest'"
    and notyet: "Run i \<notin> set sch \<Longrightarrow> rest = [] \<and> ts' ! i = AtWrite p v"
    by (auto split: if_splits)
  from snoc.prems have n: "sysStep (writeStep b) (w', ts', evs') a = (w1, ts1, evs1)"
    by (simp add: mid)
  show ?case
  proof (cases "a = Run i")
    case False
    from sysStep_other_task [OF False n]
    have o: "ts1 ! i = ts' ! i" "taskEvents i evs1 = taskEvents i evs'" "length ts1 = length ts'"
      by simp_all
    have m: "Run i \<in> set (sch @ [a]) \<longleftrightarrow> Run i \<in> set sch" using False by auto
    show ?thesis
    proof (cases "Run i \<in> set sch")
      case True
      from was [OF True] obtain r rest' where "rest = WriteCall i p v r # rest'" by blast
      then show ?thesis using o te len m True by simp
    next
      case nr: False
      from notyet [OF nr] show ?thesis using o te len m nr by simp
    qed
  next
    case True
    show ?thesis
    proof (cases "Run i \<in> set sch")
      case w: True
      from was [OF w] obtain r rest' where r: "rest = WriteCall i p v r # rest'" by blast
      from sysStep_own_events [OF n [unfolded True]] obtain ev where
        ev: "evs1 = evs' @ ev" "taskEvents i ev = ev" "length ts1 = length ts'" by blast
      have "taskEvents i evs1 = taskEvents i evs @ WriteCall i p v r # (rest' @ ev)"
        unfolding ev(1) taskEvents_append te r ev(2) by simp
      then show ?thesis using ev(3) len True by auto
    next
      case nr: False
      from notyet [OF nr] have rest: "rest = []" and t: "ts' ! i = AtWrite p v" by simp_all
      have il: "i < length ts'" using len assms(2) by simp
      obtain r st' where wr: "Write b (store w') (ctxDone w') p v = (r, st')"
        by (cases "Write b (store w') (ctxDone w') p v")
      from n have "evs1 = evs' @ [WriteCall i p v r]" "length ts1 = length ts'"
        unfolding True sysStep_def using il t by (auto simp: writeStep_def wr)
      then have "taskEvents i evs1 = taskEvents i evs @ [WriteCall i p v r]" "length ts1 = length ts"
        using te rest len by (simp_all add: taskEvents_append taskEvents_def)
      then show ?thesis using True by auto
    qed
  qed
qed

lemma sysStep_poll_flag:
  assumes "sysStep (writeStep b) (w, ts, evs) a = (w1, ts1, evs1)" and "CtxDoneCheck i c \<in> set evs1"
  shows "CtxDoneCheck i c \<in> set evs \<or> c = ctxDone w"
  using assms unfolding sysStep_def writeStep_def
  by (auto split: sched.splits writeFuture.splits if_splits option.splits prod.splits)

lemma foldl_poll_flag:
  assumes "foldl (sysStep (writeStep b)) (w, ts, []) sch = (w1, ts1, evs1)"
    and "CtxDoneCheck i c \<in> set evs1"
  shows "if c then ctxDone w \<or> CancelCtx \<in> set sch else \<not> ctxDone w"
  using assms
proof (induction sch arbitrary: w1 ts1 evs1 rule: rev_induct)
  case Nil
  then show ?case by simp
next
  case (snoc a sch)
  obtain w' ts' evs' where mid: "foldl (sysStep (writeStep b)) (w, ts, []) sch = (w', ts', evs')"
    by (cases "foldl (sysStep (writeStep b)) (w, ts, []) sch")
  from snoc.prems(1) have n: "sysStep (writeStep b) (w', ts', evs') a = (w1, ts1, evs1)"
    by (simp add: mid)
  have cd: "ctxDone w' \<longleftrightarrow> ctxDone w \<or> CancelCtx \<in> set sch"
    using foldl_ctxDone_iff [of b "(w, ts, [])" sch] mid by simp
  from sysStep_poll_flag [OF n snoc.prems(2)] show ?case
  proof
    assume "CtxDoneCheck i c \<in> set evs'"
    from snoc.IH [OF mid this] show ?thesis by (auto split: if_splits)
  next
    assume "c = ctxDone w'"
    then show ?thesis using cd by auto
  qed
qed

lemma write_poll:
  assumes run1: "runTasks (writeStep b) sch1 w (map (\<lambda>(key, val). AtSelect key val errStart) m) = (w1, ts1, evs1)"
    and run: "runTasks (writeStep b) (sch1 @ Run i # sch2) w (map (\<lambda>(key, val). AtSelect key val errStart) m)
                = (w', futures, evs)"
    and i: "i < length m"
    and head: "atLoopHead i evs1"
  shows "if ctxDone w \<or> CancelCtx \<in> set sch1
         then futures ! i = WriteDone (Some errUploadToBlobStorage) \<and>
              taskEvents i evs = taskEvents i evs1 @ [CtxDoneCheck i True] \<and>
              writesOf i evs = writesOf i evs1
         else \<exists>rest. taskEvents i evs
                  = taskEvents i evs1 @ CtxDoneCheck i False #
                      (if taskEvents i evs1 = [] then [] else [Sleep i 50]) @ rest \<and>
              (if Run i \<in> set sch2
               then \<exists>r rest'. rest = WriteCall i (fst (m ! i)) (snd (m ! i)) r # rest'
               else rest = [])"
proof -
  let ?ts0 = "map (\<lambda>(key, val). AtSelect key val errStart) m"
  let ?p = "fst (m ! i)" and ?v = "snd (m ! i)"
  from runWrites_inv [of m b sch1 w] run1
  have len1: "length ts1 = length m"
    and tr: "foldl (discipline i (m ! i)) (AwaitCheck True) (taskEvents i evs1) = phaseOf (m ! i) (ts1 ! i)"
    and nv: "phaseOf (m ! i) (ts1 ! i) \<noteq> Violated"
    unfolding writesInv_def using i by auto
  have "phaseOf (m ! i) (ts1 ! i) = AwaitCheck (taskEvents i evs1 = [])"
    using foldl_discipline_head [of i "m ! i" "taskEvents i evs1"] tr nv head
    unfolding atLoopHead_def by simp
  from phaseOf_head [OF this] obtain err where
    t1: "ts1 ! i = AtSelect ?p ?v err" and first: "err = errStart \<longleftrightarrow> taskEvents i evs1 = []"
    by blast
  have il: "i < length ts1" using i len1 by simp
  have cd: "ctxDone w1 \<longleftrightarrow> ctxDone w \<or> CancelCtx \<in> set sch1"
    using foldl_ctxDone_iff [of b "(w, ?ts0, [])" sch1] run1 unfolding runTasks_def by simp
  have fin: "foldl (sysStep (writeStep b)) (sysStep (writeStep b) (w1, ts1, evs1) (Run i)) sch2
               = (w', futures, evs)"
    using run run1 unfolding runTasks_def by simp
  show ?thesis
  proof (cases "ctxDone w1")
    case True
    have step: "sysStep (writeStep b) (w1, ts1, evs1) (Run i)
          = (w1, ts1[i := WriteDone (Some errUploadToBlobStorage)], evs1 @ [CtxDoneCheck i True])"
      unfolding sysStep_def using il t1 True by (simp add: writeStep_def)
    have "ts1[i := WriteDone (Some errUploadToBlobStorage)] ! i = WriteDone (Some errUploadToBlobStorage)"
      and "i < length (ts1[i := WriteDone (Some errUploadToBlobStorage)])"
      using il by simp_all
    from foldl_done_task [OF this fin [unfolded step]]
    have "futures ! i = WriteDone (Some errUploadToBlobStorage)"
      and "taskEvents i evs = taskEvents i (evs1 @ [CtxDoneCheck i True])"
      and "writesOf i evs = writesOf i (evs1 @ [CtxDoneCheck i True])"
      by simp_all
    then show ?thesis using True cd
      by (simp add: taskEvents_append writesOf_append taskEvents_def)
  next
    case False
    let ?ev = "CtxDoneCheck i False # (if taskEvents i evs1 = [] then [] else [Sleep i 50])"
    have step: "sysStep (writeStep b) (w1, ts1, evs1) (Run i) = (w1, ts1[i := AtWrite ?p ?v], evs1 @ ?ev)"
      unfolding sysStep_def using il t1 False first by (simp add: writeStep_def)
    have "ts1[i := AtWrite ?p ?v] ! i = AtWrite ?p ?v" and "i < length (ts1[i := AtWrite ?p ?v])"
      using il by simp_all
    from foldl_at_write [OF this fin [unfolded step]] obtain rest where
      te: "taskEvents i evs = taskEvents i (evs1 @ ?ev) @ rest"
      and r: "if Run i \<in> set sch2 then \<exists>r rest'. rest = WriteCall i ?p ?v r # rest' else rest = []"
      by (auto split: if_splits)
    have own: "taskEvents i ?ev = ?ev" by (simp add: taskEvents_def)
    have "taskEvents i evs = taskEvents i evs1 @ ?ev @ rest"
      unfolding te taskEvents_append own by simp
    then show ?thesis using False cd r by auto
  qed
qed

section \<open>The claims\<close>

text \<open>
  C1.  A successful \<open>download\<close> returns as many blobs as it was given keys, and the blob
  at index \<open>i\<close> holds the bytes of the last, successful read of task \<open>i\<close>, which read the
  key at index \<open>i\<close>.  This holds for every schedule, that is whatever the order in which the
  read tasks run and complete; if the store answers every read of a key with the same
  bytes, the result is the list of these bytes in the order of the keys.
\<close>

theorem download_order:
  assumes "download b x sch w paths = (Some (Some blobs, None), w', evs)"
  shows "length blobs = length paths \<and>
         (\<forall>i < length paths. \<exists>val.
             blobs ! i = Some \<lparr>Key = [], Value = val, RowNum = 0\<rparr> \<and>
             readsOf i evs \<noteq> [] \<and> last (readsOf i evs) = (paths ! i, Inr val)) \<and>
         (\<forall>f. (\<forall>st c p. fst (Read b st c p) = Inr (f p)) \<longrightarrow>
             blobs = map (\<lambda>p. Some \<lparr>Key = [], Value = f p, RowNum = 0\<rparr>) paths)"
proof (cases "paths = []")
  case True
  then show ?thesis using assms by (simp add: download_def)
next
  case False
  obtain w1 ts ev1 where run:
    "runTasks (readStep b (IsRetryableErr x)) sch w (map (\<lambda>p. ReadPending p 0) paths) = (w1, ts, ev1)"
    by (cases "runTasks (readStep b (IsRetryableErr x)) sch w (map (\<lambda>p. ReadPending p 0) paths)")
  note d = download_run [OF False run]
  from assms d have col: "collectFutures ts 0 (replicate (length paths) None) = Some (Some blobs, None)"
    and evs: "evs = submitReads paths @ ev1" by simp_all
  have len: "length ts = length paths"
    using runReads_inv [of b "IsRetryableErr x" paths sch w] run unfolding readsInv_def by simp
  from collect_success [OF col] len
  have lb: "length blobs = length paths"
    and each: "\<And>i. i < length paths \<Longrightarrow> \<exists>val. ts ! i = ReadDone (Inr val) \<and>
        blobs ! i = Some \<lparr>Key = [], Value = val, RowNum = 0\<rparr>"
    by auto
  have main: "\<exists>val. blobs ! i = Some \<lparr>Key = [], Value = val, RowNum = 0\<rparr> \<and>
             readsOf i evs \<noteq> [] \<and> last (readsOf i evs) = (paths ! i, Inr val) \<and>
             (\<exists>st c. Inr val = fst (Read b st c (paths ! i)))"
    if i: "i < length paths" for i
  proof -
    from each [OF i] obtain val where t: "ts ! i = ReadDone (Inr val)"
      and bl: "blobs ! i = Some \<lparr>Key = [], Value = val, RowNum = 0\<rparr>" by blast
    let ?rs = "readsOf i ev1"
    from download_inv(2) [OF run i] t
    have ne: "?rs \<noteq> []" and la: "snd (last ?rs) = Inr val"
      and all: "list_all (\<lambda>(q, r). q = paths ! i \<and> (\<exists>st c. r = fst (Read b st c (paths ! i)))) ?rs"
      by (simp_all add: readInv_def)
    from ne have "last ?rs \<in> set ?rs" by simp
    with all have "fst (last ?rs) = paths ! i \<and> (\<exists>st c. snd (last ?rs) = fst (Read b st c (paths ! i)))"
      by (simp add: list_all_iff case_prod_beta)
    with la have "last ?rs = (paths ! i, Inr val)" "\<exists>st c. Inr val = fst (Read b st c (paths ! i))"
      by (auto simp: prod_eq_iff)
    then show ?thesis using bl ne unfolding evs by (auto simp: readsOf_append readsOf_submitReads)
  qed
  have pure: "blobs = map (\<lambda>p. Some \<lparr>Key = [], Value = f p, RowNum = 0\<rparr>) paths"
    if f: "\<forall>st c p. fst (Read b st c p) = Inr (f p)" for f
  proof (rule nth_equalityI)
    show "length blobs = length (map (\<lambda>p. Some \<lparr>Key = [], Value = f p, RowNum = 0\<rparr>) paths)"
      using lb by simp
  next
    fix i assume "i < length blobs"
    then have i: "i < length paths" using lb by simp
    from main [OF i] obtain val st c where
      "blobs ! i = Some \<lparr>Key = [], Value = val, RowNum = 0\<rparr>" "Inr val = fst (Read b st c (paths ! i))"
      by blast
    moreover have "fst (Read b st c (paths ! i)) = Inr (f (paths ! i))" using f by blast
    ultimately show "blobs ! i = map (\<lambda>p. Some \<lparr>Key = [], Value = f p, RowNum = 0\<rparr>) paths ! i"
      using i by simp
  qed
  show ?thesis using lb main pure by blast
qed

theorem download_order_witness:
  "download echoIO demoExt [Run 1, Run 0] world0 [''b'', ''a'']
     = (Some (Some [Some \<lparr>Key = [], Value = [98], RowNum = 0\<rparr>,
                    Some \<lparr>Key = [], Value = [97], RowNum = 0\<rparr>], None),
        world0,
        [SubmitRead 0 ''b'', SubmitRead 1 ''a'', ReadCall 1 ''a'' (Inr [97]), ReadCall 0 ''b'' (Inr [98])]) \<and>
   (\<forall>st c p. fst (Read echoIO st c p) = Inr (map of_char p)) \<and>
   [Some \<lparr>Key = [], Value = [98], RowNum = 0\<rparr>, Some \<lparr>Key = [], Value = [97], RowNum = 0\<rparr>]
     = map (\<lambda>p. Some \<lparr>Key = [], Value = map of_char p, RowNum = 0\<rparr>) [''b'', ''a'']"
proof -
  have d: "download echoIO demoExt [Run 1, Run 0] world0 [''b'', ''a'']
     = (Some (Some [Some \<lparr>Key = [], Value = [98], RowNum = 0\<rparr>,
                    Some \<lparr>Key = [], Value = [97], RowNum = 0\<rparr>], None),
        world0,
        [SubmitRead 0 ''b'', SubmitRead 1 ''a'', ReadCall 1 ''a'' (Inr [97]), ReadCall 0 ''b'' (Inr [98])])"
    by code_simp
  have p: "\<forall>st c p. fst (Read echoIO st c p) = Inr (map of_char p)"
    by (simp add: echoIO_def memIO_def)
  note T = download_order [OF d, THEN conjunct2, THEN conjunct2, rule_format, of "map of_char"]
  have "[Some \<lparr>Key = [], Value = [98], RowNum = 0\<rparr>, Some \<lparr>Key = [], Value = [97], RowNum = 0\<rparr>]
     = map (\<lambda>p. Some \<lparr>Key = [], Value = map of_char p, RowNum = 0\<rparr>) [''b'', ''a'']"
    by (rule T) (rule p [rule_format])
  with d p show ?thesis by (intro conjI)
qed

text \<open>
  C2.  Every binlog entry of every \<open>FieldBinlog\<close> returned by \<open>uploadInsertLog\<close>,
  \<open>uploadStatsLog\<close> or \<open>uploadDeltaLog\<close> names a key of the batch that was submitted for
  writing, and its \<open>LogSize\<close> is the byte length of the payload the batch holds under that
  key.  For \<open>uploadStatsLog\<close> the insert and stats constants of package \<open>common\<close> are taken
  to be distinct plain path segments.
\<close>

theorem log_size_is_payload_length:
  "(uploadInsertLog b x sch w segID partID iData meta = (Some (Some inpaths, None), w1, ev1) \<longrightarrow>
      (\<forall>fID fb. inpaths fID = Some fb \<longrightarrow>
         (\<forall>bl \<in> set (Binlogs fb). \<exists>v. map_of (submitted ev1) (LogPath bl) = Some v
                                       \<and> LogSize bl = int (length v)))) \<and>
   (plainElem (SegmentInsertLogPath x) \<and> plainElem (SegmentStatslogPath x)
      \<and> SegmentInsertLogPath x \<noteq> SegmentStatslogPath x \<longrightarrow>
    uploadStatsLog b x sch w segID partID iData stats totRows meta
      = (Some (inPaths, Some statPaths, None), w2, ev2) \<longrightarrow>
      (\<forall>fID fb. statPaths fID = Some fb \<or> (\<exists>ip. inPaths = Some ip \<and> ip fID = Some fb) \<longrightarrow>
         (\<forall>bl \<in> set (Binlogs fb). \<exists>v. map_of (submitted ev2) (LogPath bl) = Some v
                                       \<and> LogSize bl = int (length v)))) \<and>
   (uploadDeltaLog b x sch w segID partID dData meta = (Some (Some deltaInfo, None), w3, ev3) \<longrightarrow>
      (\<forall>fb \<in> set deltaInfo. \<forall>bl \<in> set (Binlogs fb).
          \<exists>v. map_of (submitted ev3) (LogPath bl) = Some v \<and> LogSize bl = int (length v)))"
proof (intro conjI impI)
  assume u: "uploadInsertLog b x sch w segID partID iData meta = (Some (Some inpaths, None), w1, ev1)"
  from uploadInsertLog_success [OF u] obtain m gw gev where
    g: "genInsertBlobs b x w iData partID segID meta [] = (Inr (m, inpaths), gw, gev)"
    and subm: "submitted ev1 = m" by blast
  note inv = genInsertBlobs_inv [OF g]
  show "\<forall>fID fb. inpaths fID = Some fb \<longrightarrow>
         (\<forall>bl \<in> set (Binlogs fb). \<exists>v. map_of (submitted ev1) (LogPath bl) = Some v
                                       \<and> LogSize bl = int (length v))"
    unfolding subm using insertInv_binlogs [OF inv] by blast
next
  assume cst: "plainElem (SegmentInsertLogPath x) \<and> plainElem (SegmentStatslogPath x)
      \<and> SegmentInsertLogPath x \<noteq> SegmentStatslogPath x"
  assume u: "uploadStatsLog b x sch w segID partID iData stats totRows meta
      = (Some (inPaths, Some statPaths, None), w2, ev2)"
  have ne: "\<forall>e. Some (inPaths, Some statPaths, None) \<noteq> Some (None, None, Some (External e))"
    by simp
  from uploadStatsLog_reaches_write [OF u ne] obtain m1 inPaths' gw gev m2 statPaths' sw sev r uev
    where first: "IsEmpty iData \<and> m1 = [] \<and> inPaths' = None \<and> gw = w \<and> gev = [] \<or>
      \<not> IsEmpty iData \<and> (\<exists>ip. genInsertBlobs b x w iData partID segID meta [] = (Inr (m1, ip), gw, gev)
                              \<and> inPaths' = Some ip)"
    and s: "genStatBlobs b x gw stats partID segID meta m1 totRows = (Inr (m2, statPaths'), sw, sev)"
    and up: "uploadSegmentFiles b sch sw (ID meta) segID m2 = (r, w2, uev)"
    and evs: "ev2 = gev @ sev @ uev"
    and res: "Some (inPaths, Some statPaths, None) =
       (case r of None \<Rightarrow> None | Some (Some err) \<Rightarrow> Some (None, None, Some err)
            | Some None \<Rightarrow> Some (inPaths', Some statPaths', None))"
    by blast
  from res have eqs: "inPaths' = inPaths" "statPaths' = statPaths"
    by (auto split: option.splits)
  have sg: "submitted gev = []"
    using first genInsertBlobs_events [of b x w iData partID segID meta "[]" _ gw gev] by auto
  from genStatBlobs_result [OF s] obtain statBlob :: Blob and idx where
    m2: "m2 = AList.update (fieldKey (RootPath b) (SegmentStatslogPath x) (ID meta) partID segID
                               (fst (ParseInt (Key statBlob))) idx) (Value statBlob) m1"
    and sp: "statPaths' = Map.empty(fst (ParseInt (Key statBlob)) \<mapsto>
              \<lparr>FieldID = fst (ParseInt (Key statBlob)),
                 Binlogs = [\<lparr>EntriesNum = totRows,
                   LogPath = fieldKey (RootPath b) (SegmentStatslogPath x) (ID meta) partID segID
                               (fst (ParseInt (Key statBlob))) idx,
                   LogSize = int (length (Value statBlob))\<rparr>]\<rparr>)"
    and sev: "sev = [AllocOneCall (Inr idx)]"
    by blast
  have subm: "submitted ev2 = m2"
    unfolding evs submitted_append using sg sev uploadSegmentFiles_events [OF up] by simp
  let ?skey = "fieldKey (RootPath b) (SegmentStatslogPath x) (ID meta) partID segID
                               (fst (ParseInt (Key statBlob))) idx"
  show "\<forall>fID fb. statPaths fID = Some fb \<or> (\<exists>ip. inPaths = Some ip \<and> ip fID = Some fb) \<longrightarrow>
         (\<forall>bl \<in> set (Binlogs fb). \<exists>v. map_of (submitted ev2) (LogPath bl) = Some v
                                       \<and> LogSize bl = int (length v))"
  proof (intro allI impI ballI)
    fix fID fb bl
    assume h: "statPaths fID = Some fb \<or> (\<exists>ip. inPaths = Some ip \<and> ip fID = Some fb)"
      and bl: "bl \<in> set (Binlogs fb)"
    from h show "\<exists>v. map_of (submitted ev2) (LogPath bl) = Some v \<and> LogSize bl = int (length v)"
    proof
      assume "statPaths fID = Some fb"
      then have "fb = \<lparr>FieldID = fst (ParseInt (Key statBlob)),
                 Binlogs = [\<lparr>EntriesNum = totRows, LogPath = ?skey,
                   LogSize = int (length (Value statBlob))\<rparr>]\<rparr>"
        unfolding eqs [symmetric] sp by (simp split: if_splits)
      with bl have "LogPath bl = ?skey" "LogSize bl = int (length (Value statBlob))"
        by simp_all
      moreover have "map_of m2 ?skey = Some (Value statBlob)"
        unfolding m2 by (simp add: update_conv')
      ultimately show ?thesis unfolding subm by simp
    next
      assume "\<exists>ip. inPaths = Some ip \<and> ip fID = Some fb"
      then obtain ip where ip: "inPaths = Some ip" "ip fID = Some fb" by blast
      with first eqs have g: "genInsertBlobs b x w iData partID segID meta [] = (Inr (m1, ip), gw, gev)"
        by auto
      note inv = genInsertBlobs_inv [OF g]
      from insertInv_binlogs [OF inv ip(2) bl] obtain i v where
        lp: "LogPath bl = fieldKey (RootPath b) (SegmentInsertLogPath x) (ID meta) partID segID fID i"
        and mo: "map_of m1 (LogPath bl) = Some v" and ls: "LogSize bl = int (length v)"
        by blast
      have "?skey \<noteq> LogPath bl"
        unfolding lp using cst by (intro statsKey_not_insertKey) simp_all
      then have "map_of m2 (LogPath bl) = Some v"
        unfolding m2 using mo by (simp add: update_conv')
      with ls show ?thesis unfolding subm by blast
    qed
  qed
next
  assume u: "uploadDeltaLog b x sch w segID partID dData meta = (Some (Some deltaInfo, None), w3, ev3)"
  from uploadDeltaLog_success [OF u] obtain k and v :: bytes where
    subm: "submitted ev3 = [(k, v)]"
    and d: "deltaInfo = [\<lparr>FieldID = 0, Binlogs = [\<lparr>EntriesNum = RowCount dData, LogPath = k,
                             LogSize = int (length v)\<rparr>]\<rparr>]"
    by blast
  show "\<forall>fb \<in> set deltaInfo. \<forall>bl \<in> set (Binlogs fb).
          \<exists>v. map_of (submitted ev3) (LogPath bl) = Some v \<and> LogSize bl = int (length v)"
    unfolding subm d by simp
qed

theorem log_size_is_payload_length_witness:
  "(\<exists>inpaths w1 ev1.
      uploadInsertLog memIO demoExt [Run 1, Run 0, Run 0, Run 1] world0 3 2
         (Some [(100, [1, 2]), (101, [3])]) meta0 = (Some (Some inpaths, None), w1, ev1) \<and>
      (\<forall>fID fb. inpaths fID = Some fb \<longrightarrow>
         (\<forall>bl \<in> set (Binlogs fb). \<exists>v. map_of (submitted ev1) (LogPath bl) = Some v
                                       \<and> LogSize bl = int (length v)))) \<and>
   (plainElem ''insert_log'' \<and> plainElem ''stats_log'' \<and> ''insert_log'' \<noteq> ''stats_log'' \<and>
    (\<exists>inPaths statPaths w2 ev2.
      uploadStatsLog memIO demoExt [Run 0, Run 1, Run 2, Run 0, Run 1, Run 2] world0 3 2
         (Some [(100, [1, 2]), (101, [3])]) [9, 9] 5 meta0
        = (Some (inPaths, Some statPaths, None), w2, ev2) \<and>
      (\<forall>fID fb. statPaths fID = Some fb \<or> (\<exists>ip. inPaths = Some ip \<and> ip fID = Some fb) \<longrightarrow>
         (\<forall>bl \<in> set (Binlogs fb). \<exists>v. map_of (submitted ev2) (LogPath bl) = Some v
                                       \<and> LogSize bl = int (length v))))) \<and>
   (\<exists>deltaInfo w3 ev3.
      uploadDeltaLog memIO demoExt [Run 0, Run 0] world0 3 2 \<lparr>RowCount = 3\<rparr> meta0
        = (Some (Some deltaInfo, None), w3, ev3) \<and>
      (\<forall>fb \<in> set deltaInfo. \<forall>bl \<in> set (Binlogs fb).
          \<exists>v. map_of (submitted ev3) (LogPath bl) = Some v \<and> LogSize bl = int (length v)))"
proof -
  have "case uploadInsertLog memIO demoExt [Run 1, Run 0, Run 0, Run 1] world0 3 2
         (Some [(100, [1, 2]), (101, [3])]) meta0 of
          (Some (Some inpaths, None), w1, ev1) \<Rightarrow> True | _ \<Rightarrow> False"
    by code_simp
  then obtain inpaths w1 ev1 where u1:
    "uploadInsertLog memIO demoExt [Run 1, Run 0, Run 0, Run 1] world0 3 2
         (Some [(100, [1, 2]), (101, [3])]) meta0 = (Some (Some inpaths, None), w1, ev1)"
    using returned_pair by blast
  have "case uploadStatsLog memIO demoExt [Run 0, Run 1, Run 2, Run 0, Run 1, Run 2] world0 3 2
         (Some [(100, [1, 2]), (101, [3])]) [9, 9] 5 meta0 of
          (Some (inPaths, Some statPaths, None), w2, ev2) \<Rightarrow> True | _ \<Rightarrow> False"
    by code_simp
  then obtain inPaths statPaths w2 ev2 where u2:
    "uploadStatsLog memIO demoExt [Run 0, Run 1, Run 2, Run 0, Run 1, Run 2] world0 3 2
         (Some [(100, [1, 2]), (101, [3])]) [9, 9] 5 meta0
        = (Some (inPaths, Some statPaths, None), w2, ev2)"
    using returned_triple by blast
  have "case uploadDeltaLog memIO demoExt [Run 0, Run 0] world0 3 2 \<lparr>RowCount = 3\<rparr> meta0 of
          (Some (Some deltaInfo, None), w3, ev3) \<Rightarrow> True | _ \<Rightarrow> False"
    by code_simp
  then obtain deltaInfo w3 ev3 where u3:
    "uploadDeltaLog memIO demoExt [Run 0, Run 0] world0 3 2 \<lparr>RowCount = 3\<rparr> meta0
        = (Some (Some deltaInfo, None), w3, ev3)"
    using returned_pair by blast
  have c: "SegmentInsertLogPath demoExt = ''insert_log''" "SegmentStatslogPath demoExt = ''stats_log''"
    by (simp_all add: demoExt_def)
  have p: "plainElem ''insert_log'' \<and> plainElem ''stats_log'' \<and> ''insert_log'' \<noteq> ''stats_log''"
    by (simp add: plainElem_def)
  note T = log_size_is_payload_length [where b = memIO and x = demoExt and w = world0
      and segID = 3 and partID = 2 and meta = meta0
      and sch = "[Run 1, Run 0, Run 0, Run 1]" and iData = "Some [(100, [1, 2]), (101, [3])]"
      and inpaths = inpaths and ?w1.0 = w1 and ?ev1.0 = ev1]
  from T u1 have a1: "\<forall>fID fb. inpaths fID = Some fb \<longrightarrow>
         (\<forall>bl \<in> set (Binlogs fb). \<exists>v. map_of (submitted ev1) (LogPath bl) = Some v
                                       \<and> LogSize bl = int (length v))"
    by blast
  note T2 = log_size_is_payload_length [where b = memIO and x = demoExt and w = world0
      and segID = 3 and partID = 2 and meta = meta0
      and sch = "[Run 0, Run 1, Run 2, Run 0, Run 1, Run 2]" and iData = "Some [(100, [1, 2]), (101, [3])]"
      and stats = "[9, 9]" and totRows = 5
      and inPaths = inPaths and statPaths = statPaths and ?w2.0 = w2 and ?ev2.0 = ev2, unfolded c]
  from T2 u2 p have a2: "\<forall>fID fb. statPaths fID = Some fb \<or> (\<exists>ip. inPaths = Some ip \<and> ip fID = Some fb) \<longrightarrow>
         (\<forall>bl \<in> set (Binlogs fb). \<exists>v. map_of (submitted ev2) (LogPath bl) = Some v
                                       \<and> LogSize bl = int (length v))"
    by blast
  note T3 = log_size_is_payload_length [where b = memIO and x = demoExt and w = world0
      and segID = 3 and partID = 2 and meta = meta0
      and sch = "[Run 0, Run 0]" and dData = "\<lparr>RowCount = 3\<rparr>"
      and deltaInfo = deltaInfo and ?w3.0 = w3 and ?ev3.0 = ev3]
  from T3 u3 have a3: "\<forall>fb \<in> set deltaInfo. \<forall>bl \<in> set (Binlogs fb).
          \<exists>v. map_of (submitted ev3) (LogPath bl) = Some v \<and> LogSize bl = int (length v)"
    by blast
  from u1 a1 u2 a2 u3 a3 p show ?thesis by blast
qed

text \<open>
  C3 (as amended).  Insert and stats keys are \<open>path.Join\<close> of the root path, the log-type
  constant and the identifiers collection, partition, segment, field, disambiguator: their
  elements are the cleaned elements of root path and constant followed by these five
  identifiers in decimal, in this order, and the field segment is the field the returned
  \<open>FieldBinlog\<close> is filed under.  A delta key carries four identifiers: collection,
  partition, segment, disambiguator, and no field identifier.
\<close>

theorem storage_key_layout:
  "(genInsertBlobs b x w data partID segID meta [] = (Inr (m, inpaths), w1, ev1) \<longrightarrow>
      (\<forall>key \<in> fst ` set m. \<exists>fID idx.
          keyLayout (RootPath b) (SegmentInsertLogPath x) [ID meta, partID, segID, fID, idx] key) \<and>
      (\<forall>fID fb. inpaths fID = Some fb \<longrightarrow> (\<exists>idx.
          map LogPath (Binlogs fb) =
            [path_Join [RootPath b, SegmentInsertLogPath x, JoinIDPath [ID meta, partID, segID, fID, idx]]]))) \<and>
   (genStatBlobs b x w stats partID segID meta [] totRows = (Inr (m', statPaths), w2, ev2) \<longrightarrow>
      (\<forall>key \<in> fst ` set m'. \<exists>fID idx.
          keyLayout (RootPath b) (SegmentStatslogPath x) [ID meta, partID, segID, fID, idx] key) \<and>
      (\<forall>fID fb. statPaths fID = Some fb \<longrightarrow> (\<exists>idx.
          map LogPath (Binlogs fb) =
            [path_Join [RootPath b, SegmentStatslogPath x, JoinIDPath [ID meta, partID, segID, fID, idx]]]))) \<and>
   (genDeltaBlobs b x w dData collID partID segID = (Inr (dkey, v), w3, ev3) \<longrightarrow>
      (\<exists>idx. dkey = path_Join [RootPath b, SegmentDeltaLogPath x, JoinIDPath [collID, partID, segID, idx]] \<and>
          keyLayout (RootPath b) (SegmentDeltaLogPath x) [collID, partID, segID, idx] dkey))"
proof (intro conjI impI)
  assume g: "genInsertBlobs b x w data partID segID meta [] = (Inr (m, inpaths), w1, ev1)"
  note inv = genInsertBlobs_inv [OF g]
  show "\<forall>key \<in> fst ` set m. \<exists>fID idx.
          keyLayout (RootPath b) (SegmentInsertLogPath x) [ID meta, partID, segID, fID, idx] key"
  proof
    fix key assume "key \<in> fst ` set m"
    with insertInv_keys [OF inv] obtain fID idx where
      "key = fieldKey (RootPath b) (SegmentInsertLogPath x) (ID meta) partID segID fID idx"
      by fastforce
    then show "\<exists>fID idx. keyLayout (RootPath b) (SegmentInsertLogPath x) [ID meta, partID, segID, fID, idx] key"
      using keyLayout_fieldKey by blast
  qed
  show "\<forall>fID fb. inpaths fID = Some fb \<longrightarrow> (\<exists>idx.
          map LogPath (Binlogs fb) =
            [path_Join [RootPath b, SegmentInsertLogPath x, JoinIDPath [ID meta, partID, segID, fID, idx]]])"
  proof (intro allI impI)
    fix fID fb assume "inpaths fID = Some fb"
    from insertInv_paths [OF inv this]
    show "\<exists>idx. map LogPath (Binlogs fb) =
            [path_Join [RootPath b, SegmentInsertLogPath x, JoinIDPath [ID meta, partID, segID, fID, idx]]]"
      unfolding fieldKey_def by auto
  qed
next
  assume g: "genStatBlobs b x w stats partID segID meta [] totRows = (Inr (m', statPaths), w2, ev2)"
  from genStatBlobs_result [OF g] obtain statBlob :: Blob and idx where
    m': "m' = AList.update (fieldKey (RootPath b) (SegmentStatslogPath x) (ID meta) partID segID
                               (fst (ParseInt (Key statBlob))) idx) (Value statBlob) []"
    and sp: "statPaths = Map.empty(fst (ParseInt (Key statBlob)) \<mapsto>
              \<lparr>FieldID = fst (ParseInt (Key statBlob)),
                 Binlogs = [\<lparr>EntriesNum = totRows,
                   LogPath = fieldKey (RootPath b) (SegmentStatslogPath x) (ID meta) partID segID
                               (fst (ParseInt (Key statBlob))) idx,
                   LogSize = int (length (Value statBlob))\<rparr>]\<rparr>)"
    by blast
  show "\<forall>key \<in> fst ` set m'. \<exists>fID idx.
          keyLayout (RootPath b) (SegmentStatslogPath x) [ID meta, partID, segID, fID, idx] key"
    unfolding m' by (simp add: keyLayout_fieldKey) (meson keyLayout_fieldKey)
  show "\<forall>fID fb. statPaths fID = Some fb \<longrightarrow> (\<exists>idx.
          map LogPath (Binlogs fb) =
            [path_Join [RootPath b, SegmentStatslogPath x, JoinIDPath [ID meta, partID, segID, fID, idx]]])"
  proof (intro allI impI)
    fix fID fb assume "statPaths fID = Some fb"
    then have "map LogPath (Binlogs fb) =
            [fieldKey (RootPath b) (SegmentStatslogPath x) (ID meta) partID segID fID idx]"
      unfolding sp by (simp split: if_splits) auto
    then show "\<exists>idx. map LogPath (Binlogs fb) =
            [path_Join [RootPath b, SegmentStatslogPath x, JoinIDPath [ID meta, partID, segID, fID, idx]]]"
      unfolding fieldKey_def by (rule exI)
  qed
next
  assume g: "genDeltaBlobs b x w dData collID partID segID = (Inr (dkey, v), w3, ev3)"
  from genDeltaBlobs_result [OF g] obtain idx where
    k: "dkey = path_Join [RootPath b, SegmentDeltaLogPath x, JoinIDPath [collID, partID, segID, idx]]"
    by blast
  have "keyLayout (RootPath b) (SegmentDeltaLogPath x) [collID, partID, segID, idx] dkey"
    unfolding keyLayout_def k by (rule elements_key) simp
  with k show "\<exists>idx. dkey = path_Join [RootPath b, SegmentDeltaLogPath x, JoinIDPath [collID, partID, segID, idx]] \<and>
          keyLayout (RootPath b) (SegmentDeltaLogPath x) [collID, partID, segID, idx] dkey"
    by blast
qed

theorem storage_key_layout_witness:
  "(\<exists>m inpaths w1 ev1.
      genInsertBlobs memIO demoExt world0 (Some [(100, [1, 2]), (101, [3])]) 2 3 meta0 []
        = (Inr (m, inpaths), w1, ev1) \<and>
      (\<forall>key \<in> fst ` set m. \<exists>fID idx. keyLayout ''files'' ''insert_log'' [1, 2, 3, fID, idx] key)) \<and>
   (\<exists>m' statPaths w2 ev2.
      genStatBlobs memIO demoExt world0 [9, 9] 2 3 meta0 [] 5 = (Inr (m', statPaths), w2, ev2) \<and>
      (\<forall>key \<in> fst ` set m'. \<exists>fID idx. keyLayout ''files'' ''stats_log'' [1, 2, 3, fID, idx] key)) \<and>
   (\<exists>dkey v w3 ev3.
      genDeltaBlobs memIO demoExt world0 \<lparr>RowCount = 3\<rparr> 1 2 3 = (Inr (dkey, v), w3, ev3) \<and>
      (\<exists>idx. keyLayout ''files'' ''delta_log'' [1, 2, 3, idx] dkey))"
proof -
  have "case genInsertBlobs memIO demoExt world0 (Some [(100, [1, 2]), (101, [3])]) 2 3 meta0 [] of
          (Inr (m, inpaths), w1, ev1) \<Rightarrow> True | _ \<Rightarrow> False"
    by code_simp
  then obtain m inpaths w1 ev1 where g1:
    "genInsertBlobs memIO demoExt world0 (Some [(100, [1, 2]), (101, [3])]) 2 3 meta0 []
       = (Inr (m, inpaths), w1, ev1)"
    by (auto split: prod.splits sum.splits)
  have "case genStatBlobs memIO demoExt world0 [9, 9] 2 3 meta0 [] 5 of
          (Inr (m', statPaths), w2, ev2) \<Rightarrow> True | _ \<Rightarrow> False"
    by code_simp
  then obtain m' statPaths w2 ev2 where g2:
    "genStatBlobs memIO demoExt world0 [9, 9] 2 3 meta0 [] 5 = (Inr (m', statPaths), w2, ev2)"
    by (auto split: prod.splits sum.splits)
  have "case genDeltaBlobs memIO demoExt world0 \<lparr>RowCount = 3\<rparr> 1 2 3 of
          (Inr (dkey, v), w3, ev3) \<Rightarrow> True | _ \<Rightarrow> False"
    by code_simp
  then obtain dkey v w3 ev3 where g3:
    "genDeltaBlobs memIO demoExt world0 \<lparr>RowCount = 3\<rparr> 1 2 3 = (Inr (dkey, v), w3, ev3)"
    by (auto split: prod.splits sum.splits)
  have c: "RootPath memIO = ''files''" "SegmentInsertLogPath demoExt = ''insert_log''"
    "SegmentStatslogPath demoExt = ''stats_log''" "SegmentDeltaLogPath demoExt = ''delta_log''"
    "ID meta0 = 1"
    by (simp_all add: memIO_def demoExt_def meta0_def)
  note T = storage_key_layout [where b = memIO and x = demoExt and w = world0 and meta = meta0
      and data = "Some [(100, [1, 2]), (101, [3])]" and partID = 2 and segID = 3
      and m = m and inpaths = inpaths and ?w1.0 = w1 and ?ev1.0 = ev1
      and stats = "[9, 9]" and totRows = 5 and m' = m' and statPaths = statPaths
      and ?w2.0 = w2 and ?ev2.0 = ev2
      and dData = "\<lparr>RowCount = 3\<rparr>" and collID = 1 and dkey = dkey and v = v
      and ?w3.0 = w3 and ?ev3.0 = ev3, unfolded c]
  from T g1 have a1: "\<forall>key \<in> fst ` set m. \<exists>fID idx. keyLayout ''files'' ''insert_log'' [1, 2, 3, fID, idx] key"
    by blast
  from T g2 have a2: "\<forall>key \<in> fst ` set m'. \<exists>fID idx. keyLayout ''files'' ''stats_log'' [1, 2, 3, fID, idx] key"
    by blast
  from T g3 have a3: "\<exists>idx. keyLayout ''files'' ''delta_log'' [1, 2, 3, idx] dkey"
    by blast
  from g1 a1 g2 a2 g3 a3 show ?thesis by blast
qed

text \<open>
  C3 as stated fails for delta logs.  With root path \<open>files\<close>, collection 1, partition 2,
  segment 3 and allocated identifier 7, the delta key is \<open>files/delta_log/1/2/3/7\<close>: four
  identifier segments after the constant, none of them the field identifier 0 of the
  returned \<open>FieldBinlog\<close>.
\<close>

theorem delta_key_has_no_field_segment:
  "fst (uploadDeltaLog memIO demoExt [Run 0, Run 0] world0 3 2 \<lparr>RowCount = 3\<rparr> meta0)
     = Some (Some [\<lparr>FieldID = 0, Binlogs = [\<lparr>EntriesNum = 3,
          LogPath = ''files/delta_log/1/2/3/7'', LogSize = 3\<rparr>]\<rparr>], None) \<and>
   elements ''files/delta_log/1/2/3/7'' = keyStem ''files'' ''delta_log'' @ [''1'', ''2'', ''3'', ''7''] \<and>
   length (elements ''files/delta_log/1/2/3/7'') \<noteq> length (keyStem ''files'' ''delta_log'') + 5 \<and>
   \<not> keyLayout ''files'' ''delta_log'' [1, 2, 3, 0, 7] ''files/delta_log/1/2/3/7''"
  by code_simp

text \<open>
  C4.  Under every schedule and for every chunk manager, the events of a write task
  submitted by \<open>uploadSegmentFiles\<close> follow the retry discipline, and the discipline's phase
  is the state of the task's future, on which \<open>uploadSegmentFiles\<close> waits: every attempt is
  preceded by a poll of the context; after a failed attempt, whatever the error, the task
  polls again.  The task has returned \<open>errUploadToBlobStorage\<close> exactly when its last event is
  a poll that found the context done.  There is no bound on the attempts: as long as the
  context is not cancelled and every attempt has failed, the task is still running and
  has made one attempt for every two steps it was scheduled.

  The polls report the context as it is.  A poll reports the context done only if it was
  done at the start or has been cancelled during the run, and reports it not done only
  if it was not done at the start.  Whenever the task is scheduled at the head of its
  loop (before its first attempt, or after a failed one) and the context is done by then,
  that step is a poll that finds it done: the task returns \<open>errUploadToBlobStorage\<close> and
  makes no further attempt, whatever the rest of the schedule.  If the context is not done
  by then, the poll finds it not done, the task sleeps 50 ms unless this is its first
  attempt, and its next step is another \<open>Write\<close> of the same pair.
\<close>

theorem write_retry_loop:
  assumes "runTasks (writeStep b) sch w (map (\<lambda>(key, val). AtSelect key val errStart) m) = (w', futures, evs)"
    and "i < length m"
  shows "foldl (discipline i (m ! i)) (AwaitCheck True) (taskEvents i evs) = phaseOf (m ! i) (futures ! i) \<and>
         phaseOf (m ! i) (futures ! i) \<noteq> Violated \<and>
         (futures ! i = WriteDone (Some errUploadToBlobStorage)
            \<longleftrightarrow> taskEvents i evs \<noteq> [] \<and> last (taskEvents i evs) = CtxDoneCheck i True) \<and>
         (\<not> ctxDone w \<and> CancelCtx \<notin> set sch \<and> list_all (\<lambda>r. r \<noteq> None) (writesOf i evs) \<longrightarrow>
            \<not> isDone (futures ! i) \<and> length (writesOf i evs) = count_list sch (Run i) div 2) \<and>
         uploadSegmentFiles b sch w CollectionID segID m = (AwaitAll futures, w', submitWrites m @ evs) \<and>
         (\<forall>c. CtxDoneCheck i c \<in> set evs \<longrightarrow>
            (if c then ctxDone w \<or> CancelCtx \<in> set sch else \<not> ctxDone w)) \<and>
         (\<forall>sch1 sch2 w1 ts1 evs1.
            sch = sch1 @ Run i # sch2 \<and>
            runTasks (writeStep b) sch1 w (map (\<lambda>(key, val). AtSelect key val errStart) m) = (w1, ts1, evs1) \<and>
            atLoopHead i evs1 \<longrightarrow>
              (if ctxDone w \<or> CancelCtx \<in> set sch1
               then futures ! i = WriteDone (Some errUploadToBlobStorage) \<and>
                    taskEvents i evs = taskEvents i evs1 @ [CtxDoneCheck i True] \<and>
                    writesOf i evs = writesOf i evs1
               else \<exists>rest. taskEvents i evs
                        = taskEvents i evs1 @ CtxDoneCheck i False #
                            (if taskEvents i evs1 = [] then [] else [Sleep i 50]) @ rest \<and>
                    (if Run i \<in> set sch2
                     then \<exists>r rest'. rest = WriteCall i (fst (m ! i)) (snd (m ! i)) r # rest'
                     else rest = [])))"
proof -
  from runWrites_inv [of m b sch w] assms
  have tr: "foldl (discipline i (m ! i)) (AwaitCheck True) (taskEvents i evs) = phaseOf (m ! i) (futures ! i)"
    and nv: "phaseOf (m ! i) (futures ! i) \<noteq> Violated"
    unfolding writesInv_def by auto
  have "phaseOf (m ! i) (futures ! i) = StoppedCancelled
         \<longleftrightarrow> futures ! i = WriteDone (Some errUploadToBlobStorage)"
    using nv by (cases "(m ! i, futures ! i)" rule: phaseOf.cases) (auto split: if_splits)
  then have c: "futures ! i = WriteDone (Some errUploadToBlobStorage)
            \<longleftrightarrow> taskEvents i evs \<noteq> [] \<and> last (taskEvents i evs) = CtxDoneCheck i True"
    using foldl_discipline_cancelled [of i "m ! i" "taskEvents i evs"] tr nv by simp
  have d: "\<not> ctxDone w \<and> CancelCtx \<notin> set sch \<and> list_all (\<lambda>r. r \<noteq> None) (writesOf i evs) \<longrightarrow>
            \<not> isDone (futures ! i) \<and> length (writesOf i evs) = count_list sch (Run i) div 2"
  proof (intro impI)
    assume h: "\<not> ctxDone w \<and> CancelCtx \<notin> set sch \<and> list_all (\<lambda>r. r \<noteq> None) (writesOf i evs)"
    then have "retryingInv sch i (w', futures, evs)"
      using runWrites_retrying [of w sch i m b] assms by simp
    with h show "\<not> isDone (futures ! i) \<and> length (writesOf i evs) = count_list sch (Run i) div 2"
      unfolding retryingInv_def by (cases "futures ! i") auto
  qed
  have u: "uploadSegmentFiles b sch w CollectionID segID m = (AwaitAll futures, w', submitWrites m @ evs)"
    using assms by (auto simp: uploadSegmentFiles_def)
  have f: "\<forall>c. CtxDoneCheck i c \<in> set evs \<longrightarrow>
            (if c then ctxDone w \<or> CancelCtx \<in> set sch else \<not> ctxDone w)"
    using foldl_poll_flag [OF assms(1) [unfolded runTasks_def]] by blast
  have g: "\<forall>sch1 sch2 w1 ts1 evs1.
            sch = sch1 @ Run i # sch2 \<and>
            runTasks (writeStep b) sch1 w (map (\<lambda>(key, val). AtSelect key val errStart) m) = (w1, ts1, evs1) \<and>
            atLoopHead i evs1 \<longrightarrow>
              (if ctxDone w \<or> CancelCtx \<in> set sch1
               then futures ! i = WriteDone (Some errUploadToBlobStorage) \<and>
                    taskEvents i evs = taskEvents i evs1 @ [CtxDoneCheck i True] \<and>
                    writesOf i evs = writesOf i evs1
               else \<exists>rest. taskEvents i evs
                        = taskEvents i evs1 @ CtxDoneCheck i False #
                            (if taskEvents i evs1 = [] then [] else [Sleep i 50]) @ rest \<and>
                    (if Run i \<in> set sch2
                     then \<exists>r rest'. rest = WriteCall i (fst (m ! i)) (snd (m ! i)) r # rest'
                     else rest = []))"
  proof (intro allI impI)
    fix sch1 sch2 w1 ts1 evs1
    assume h: "sch = sch1 @ Run i # sch2 \<and>
            runTasks (writeStep b) sch1 w (map (\<lambda>(key, val). AtSelect key val errStart) m) = (w1, ts1, evs1) \<and>
            atLoopHead i evs1"
    then have run1: "runTasks (writeStep b) sch1 w (map (\<lambda>(key, val). AtSelect key val errStart) m) = (w1, ts1, evs1)"
      and head: "atLoopHead i evs1" and sp: "sch = sch1 @ Run i # sch2" by simp_all
    from write_poll [OF run1 assms(1) [unfolded sp] assms(2) head]
    show "if ctxDone w \<or> CancelCtx \<in> set sch1
               then futures ! i = WriteDone (Some errUploadToBlobStorage) \<and>
                    taskEvents i evs = taskEvents i evs1 @ [CtxDoneCheck i True] \<and>
                    writesOf i evs = writesOf i evs1
               else \<exists>rest. taskEvents i evs
                        = taskEvents i evs1 @ CtxDoneCheck i False #
                            (if taskEvents i evs1 = [] then [] else [Sleep i 50]) @ rest \<and>
                    (if Run i \<in> set sch2
                     then \<exists>r rest'. rest = WriteCall i (fst (m ! i)) (snd (m ! i)) r # rest'
                     else rest = [])" .
  qed
  show ?thesis
    by (rule conjI [OF tr conjI [OF nv conjI [OF c conjI [OF d conjI [OF u conjI [OF f g]]]]]])
qed

theorem write_retry_loop_witness:
  "runTasks (writeStep failingIO) [Run 0, Run 0, Run 0, Run 0, CancelCtx, Run 0] world0
      (map (\<lambda>(key, val). AtSelect key val errStart) [(''k'', [1])])
     = (world0\<lparr>ctxDone := True\<rparr>, [WriteDone (Some errUploadToBlobStorage)],
        [CtxDoneCheck 0 False, WriteCall 0 ''k'' [1] (Some ''unavailable''),
         CtxDoneCheck 0 False, Sleep 0 50, WriteCall 0 ''k'' [1] (Some ''unavailable''),
         CtxDoneCheck 0 True]) \<and>
   (0 :: nat) < length [(''k'', [1 :: byte])] \<and>
   foldl (discipline 0 ([(''k'', [1])] ! 0)) (AwaitCheck True)
      (taskEvents 0 [CtxDoneCheck 0 False, WriteCall 0 ''k'' [1] (Some ''unavailable''),
         CtxDoneCheck 0 False, Sleep 0 50, WriteCall 0 ''k'' [1] (Some ''unavailable''),
         CtxDoneCheck 0 True])
     = phaseOf ([(''k'', [1])] ! 0) ([WriteDone (Some errUploadToBlobStorage) :: string writeFuture] ! 0) \<and>
   runTasks (writeStep failingIO) [Run 0, Run 0, Run 0, Run 0] world0
      (map (\<lambda>(key, val). AtSelect key val errStart) [(''k'', [1])])
     = (world0, [AtSelect ''k'' [1] (LastWriteErr ''unavailable'')],
        [CtxDoneCheck 0 False, WriteCall 0 ''k'' [1] (Some ''unavailable''),
         CtxDoneCheck 0 False, Sleep 0 50, WriteCall 0 ''k'' [1] (Some ''unavailable'')]) \<and>
   \<not> ctxDone world0 \<and> CancelCtx \<notin> set [Run 0, Run 0, Run 0, Run 0] \<and>
   list_all (\<lambda>r. r \<noteq> None)
      (writesOf 0 [CtxDoneCheck 0 False, WriteCall 0 ''k'' [1] (Some ''unavailable''),
         CtxDoneCheck 0 False, Sleep 0 50, WriteCall 0 ''k'' [1 :: byte] (Some ''unavailable'')]) \<and>
   length (writesOf 0 [CtxDoneCheck 0 False, WriteCall 0 ''k'' [1] (Some ''unavailable''),
         CtxDoneCheck 0 False, Sleep 0 50, WriteCall 0 ''k'' [1 :: byte] (Some ''unavailable'')])
     = count_list [Run 0, Run 0, Run 0, Run 0] (Run 0) div 2 \<and>
   [Run 0, Run 0, Run 0, Run 0, CancelCtx, Run 0] = [Run 0, Run 0, Run 0, Run 0, CancelCtx] @ Run 0 # [] \<and>
   runTasks (writeStep failingIO) [Run 0, Run 0, Run 0, Run 0, CancelCtx] world0
      (map (\<lambda>(key, val). AtSelect key val errStart) [(''k'', [1])])
     = (world0\<lparr>ctxDone := True\<rparr>, [AtSelect ''k'' [1] (LastWriteErr ''unavailable'')],
        [CtxDoneCheck 0 False, WriteCall 0 ''k'' [1] (Some ''unavailable''),
         CtxDoneCheck 0 False, Sleep 0 50, WriteCall 0 ''k'' [1] (Some ''unavailable'')]) \<and>
   atLoopHead 0 [CtxDoneCheck 0 False, WriteCall 0 ''k'' [1] (Some ''unavailable''),
         CtxDoneCheck 0 False, Sleep 0 50, WriteCall 0 ''k'' [1 :: byte] (Some ''unavailable'')] \<and>
   CancelCtx \<in> set [Run 0, Run 0, Run 0, Run 0, CancelCtx] \<and>
   writesOf 0 [CtxDoneCheck 0 False, WriteCall 0 ''k'' [1] (Some ''unavailable''),
         CtxDoneCheck 0 False, Sleep 0 50, WriteCall 0 ''k'' [1 :: byte] (Some ''unavailable''),
         CtxDoneCheck 0 True]
     = writesOf 0 [CtxDoneCheck 0 False, WriteCall 0 ''k'' [1] (Some ''unavailable''),
         CtxDoneCheck 0 False, Sleep 0 50, WriteCall 0 ''k'' [1 :: byte] (Some ''unavailable'')]"
proof -
  let ?e1 = "[CtxDoneCheck 0 False, WriteCall 0 ''k'' [1] (Some ''unavailable''),
         CtxDoneCheck 0 False, Sleep 0 50, WriteCall 0 ''k'' [1 :: byte] (Some ''unavailable''),
         CtxDoneCheck 0 True]"
  let ?e2 = "[CtxDoneCheck 0 False, WriteCall 0 ''k'' [1] (Some ''unavailable''),
         CtxDoneCheck 0 False, Sleep 0 50, WriteCall 0 ''k'' [1 :: byte] (Some ''unavailable'')]"
  have r1: "runTasks (writeStep failingIO) [Run 0, Run 0, Run 0, Run 0, CancelCtx, Run 0] world0
      (map (\<lambda>(key, val). AtSelect key val errStart) [(''k'', [1])])
     = (world0\<lparr>ctxDone := True\<rparr>, [WriteDone (Some errUploadToBlobStorage)], ?e1)"
    by code_simp
  have r2: "runTasks (writeStep failingIO) [Run 0, Run 0, Run 0, Run 0] world0
      (map (\<lambda>(key, val). AtSelect key val errStart) [(''k'', [1])])
     = (world0, [AtSelect ''k'' [1] (LastWriteErr ''unavailable'')], ?e2)"
    by code_simp
  have r3: "runTasks (writeStep failingIO) [Run 0, Run 0, Run 0, Run 0, CancelCtx] world0
      (map (\<lambda>(key, val). AtSelect key val errStart) [(''k'', [1])])
     = (world0\<lparr>ctxDone := True\<rparr>, [AtSelect ''k'' [1] (LastWriteErr ''unavailable'')], ?e2)"
    by code_simp
  have i: "(0 :: nat) < length [(''k'', [1 :: byte])]" by simp
  have a: "foldl (discipline 0 ([(''k'', [1])] ! 0)) (AwaitCheck True) (taskEvents 0 ?e1)
     = phaseOf ([(''k'', [1])] ! 0) ([WriteDone (Some errUploadToBlobStorage) :: string writeFuture] ! 0)"
    by (rule write_retry_loop [OF r1 i, THEN conjunct1])
  have h1: "\<not> ctxDone world0" by (simp add: world0_def)
  have h2: "CancelCtx \<notin> set [Run 0, Run 0, Run 0, Run 0]" by simp
  have h3: "list_all (\<lambda>r. r \<noteq> None) (writesOf 0 ?e2)" by simp
  have b: "length (writesOf 0 ?e2) = count_list [Run 0, Run 0, Run 0, Run 0] (Run 0) div 2"
    using write_retry_loop [OF r2 i, THEN conjunct2, THEN conjunct2, THEN conjunct2, THEN conjunct1]
      h1 h2 h3
    by blast
  have sp: "[Run 0, Run 0, Run 0, Run 0, CancelCtx, Run 0] = [Run 0, Run 0, Run 0, Run 0, CancelCtx] @ Run 0 # []"
    by simp
  have hd: "atLoopHead 0 ?e2" by (simp add: atLoopHead_def taskEvents_def)
  have cc: "CancelCtx \<in> set [Run 0, Run 0, Run 0, Run 0, CancelCtx]" by simp
  note poll = write_retry_loop [OF r1 i, THEN conjunct2, THEN conjunct2, THEN conjunct2, THEN conjunct2,
          THEN conjunct2, THEN conjunct2]
  from poll [THEN spec, THEN spec, THEN spec, THEN spec, THEN spec, THEN mp, OF conjI [OF sp conjI [OF r3 hd]]] cc
  have g: "writesOf 0 ?e1 = writesOf 0 ?e2" by simp
  from r1 i a r2 h1 h2 h3 b sp r3 hd cc g show ?thesis by (intro conjI)
qed

text \<open>
  C5 (as amended).  Whenever \<open>uploadStatsLog\<close> does not fail with a codec or allocator
  error, one stats blob is serialized from \<open>stats\<close> and \<open>totRows\<close>, \<open>AllocOne\<close> is called exactly
  once, and the stats blob is in the submitted batch under the key built from that
  identifier, whether or not the insert batch is empty: the batch is the insert batch
  with this one binding added.  With an empty insert batch the batch holds the stats blob
  alone.  If the call returns without error, the stats-log map has exactly the stats
  field, and the insert-log map is \<open>nil\<close> when the insert batch is empty.
\<close>

theorem uploadStatsLog_stats_blob:
  assumes "uploadStatsLog b x sch w segID partID iData stats totRows meta = (res, w', evs)"
    and "\<forall>e. res \<noteq> Some (None, None, Some (External e))"
  shows "\<exists>statBlob idx m1.
     SerializePkStats x meta stats totRows = Inr statBlob \<and>
     allocOnes evs = [Inr idx] \<and>
     submitted evs =
       AList.update (path_Join [RootPath b, SegmentStatslogPath x,
                       JoinIDPath [ID meta, partID, segID, fst (ParseInt (Key statBlob)), idx]])
         (Value statBlob) m1 \<and>
     map_of (submitted evs)
       (path_Join [RootPath b, SegmentStatslogPath x,
          JoinIDPath [ID meta, partID, segID, fst (ParseInt (Key statBlob)), idx]])
       = Some (Value statBlob) \<and>
     (IsEmpty iData \<longrightarrow> m1 = [] \<and> allocations evs = [AllocOneCall (Inr idx)]) \<and>
     (\<forall>ins sts. res = Some (ins, sts, None) \<longrightarrow>
        sts = Some (Map.empty(fst (ParseInt (Key statBlob)) \<mapsto>
                \<lparr>FieldID = fst (ParseInt (Key statBlob)),
                   Binlogs = [\<lparr>EntriesNum = totRows,
                     LogPath = path_Join [RootPath b, SegmentStatslogPath x,
                       JoinIDPath [ID meta, partID, segID, fst (ParseInt (Key statBlob)), idx]],
                     LogSize = int (length (Value statBlob))\<rparr>]\<rparr>)) \<and>
        sts \<noteq> None \<and> sts \<noteq> Some Map.empty \<and>
        (IsEmpty iData \<longrightarrow> ins = None))"
proof -
  from uploadStatsLog_reaches_write [OF assms] obtain m1 inPaths gw gev m2 statPaths sw sev r uev
    where first: "IsEmpty iData \<and> m1 = [] \<and> inPaths = None \<and> gw = w \<and> gev = [] \<or>
      \<not> IsEmpty iData \<and> (\<exists>ip. genInsertBlobs b x w iData partID segID meta [] = (Inr (m1, ip), gw, gev)
                              \<and> inPaths = Some ip)"
    and s: "genStatBlobs b x gw stats partID segID meta m1 totRows = (Inr (m2, statPaths), sw, sev)"
    and up: "uploadSegmentFiles b sch sw (ID meta) segID m2 = (r, w', uev)"
    and evs: "evs = gev @ sev @ uev"
    and res: "res = (case r of None \<Rightarrow> None | Some (Some err) \<Rightarrow> Some (None, None, Some err)
            | Some None \<Rightarrow> Some (inPaths, Some statPaths, None))"
    by blast
  from genStatBlobs_result [OF s] obtain statBlob :: Blob and idx where
    ser: "SerializePkStats x meta stats totRows = Inr statBlob"
    and m2: "m2 = AList.update (fieldKey (RootPath b) (SegmentStatslogPath x) (ID meta) partID segID
                               (fst (ParseInt (Key statBlob))) idx) (Value statBlob) m1"
    and sp: "statPaths = Map.empty(fst (ParseInt (Key statBlob)) \<mapsto>
              \<lparr>FieldID = fst (ParseInt (Key statBlob)),
                 Binlogs = [\<lparr>EntriesNum = totRows,
                   LogPath = fieldKey (RootPath b) (SegmentStatslogPath x) (ID meta) partID segID
                               (fst (ParseInt (Key statBlob))) idx,
                   LogSize = int (length (Value statBlob))\<rparr>]\<rparr>)"
    and sev: "sev = [AllocOneCall (Inr idx)]"
    by blast
  have g1: "submitted gev = []" "allocOnes gev = []"
    using first genInsertBlobs_events [of b x w iData partID segID meta "[]" _ gw gev]
      genInsertBlobs_allocOnes [of b x w iData partID segID meta "[]" _ gw gev] by auto
  note ue = uploadSegmentFiles_events [OF up]
  have u1: "allocOnes uev = []" using ue by (simp add: allocOnes_allocations)
  have subm: "submitted evs = m2"
    unfolding evs submitted_append using g1 sev ue by simp
  have ao: "allocOnes evs = [Inr idx]"
    unfolding evs allocOnes_append using g1 sev u1 by simp
  have mo: "map_of m2 (fieldKey (RootPath b) (SegmentStatslogPath x) (ID meta) partID segID
                               (fst (ParseInt (Key statBlob))) idx) = Some (Value statBlob)"
    unfolding m2 by (simp add: update_conv')
  have em: "IsEmpty iData \<longrightarrow> m1 = [] \<and> allocations evs = [AllocOneCall (Inr idx)]"
    using first unfolding evs allocations_append sev using ue by auto
  have rs: "\<forall>ins sts. res = Some (ins, sts, None) \<longrightarrow>
        sts = Some statPaths \<and> (IsEmpty iData \<longrightarrow> ins = None)"
    using first unfolding res by (auto split: option.splits)
  have sne: "statPaths \<noteq> Map.empty"
    unfolding sp by (metis map_upd_nonempty)
  have rs': "\<forall>ins sts. res = Some (ins, sts, None) \<longrightarrow>
        sts = Some statPaths \<and> sts \<noteq> None \<and> sts \<noteq> Some Map.empty \<and> (IsEmpty iData \<longrightarrow> ins = None)"
    using rs sne by auto
  note c1 = subm [unfolded m2 fieldKey_def]
  note c2 = mo [folded subm, unfolded fieldKey_def]
  note c3 = rs' [unfolded sp fieldKey_def]
  show ?thesis
    by (rule exI [of _ statBlob], rule exI [of _ idx], rule exI [of _ m1])
       (intro conjI ser ao c1 c2 em c3)
qed

theorem uploadStatsLog_stats_blob_witness:
  "\<exists>res w' evs.
     uploadStatsLog memIO demoExt [Run 0, Run 0] world0 3 2 None [9, 9] 5 meta0 = (res, w', evs) \<and>
     (\<forall>e. res \<noteq> Some (None, None, Some (External e))) \<and>
     IsEmpty (None :: byte InsertData option) \<and>
     (\<exists>statBlob idx.
        SerializePkStats demoExt meta0 [9, 9] 5 = Inr statBlob \<and>
        allocOnes evs = [Inr idx] \<and>
        submitted evs = [(path_Join [''files'', ''stats_log'',
                            JoinIDPath [1, 2, 3, fst (ParseInt (Key statBlob)), idx]], Value statBlob)] \<and>
        (\<forall>ins sts. res = Some (ins, sts, None) \<longrightarrow> ins = None \<and> sts \<noteq> None \<and> sts \<noteq> Some Map.empty))"
proof -
  have "case uploadStatsLog memIO demoExt [Run 0, Run 0] world0 3 2 None [9, 9] 5 meta0 of
          (Some (a, Some c, None), w, ev) \<Rightarrow> True | _ \<Rightarrow> False"
    by code_simp
  then obtain a c w' evs where u:
    "uploadStatsLog memIO demoExt [Run 0, Run 0] world0 3 2 None [9, 9] 5 meta0
       = (Some (a, Some c, None), w', evs)"
    using returned_triple by blast
  have ne: "\<forall>e. Some (a, Some c, None) \<noteq> Some (None, None, Some (External e :: string error))"
    by simp
  have em: "IsEmpty (None :: byte InsertData option)" by (simp add: IsEmpty_def)
  have k: "RootPath memIO = ''files''" "SegmentStatslogPath demoExt = ''stats_log''" "ID meta0 = 1"
    by (simp_all add: memIO_def demoExt_def meta0_def)
  from uploadStatsLog_stats_blob [OF u ne, unfolded k] em
  have "\<exists>statBlob idx.
        SerializePkStats demoExt meta0 [9, 9] 5 = Inr statBlob \<and>
        allocOnes evs = [Inr idx] \<and>
        submitted evs = [(path_Join [''files'', ''stats_log'',
                            JoinIDPath [1, 2, 3, fst (ParseInt (Key statBlob)), idx]], Value statBlob)] \<and>
        (\<forall>ins sts. Some (a, Some c, None) = Some (ins, sts, None) \<longrightarrow> ins = None \<and> sts \<noteq> None \<and> sts \<noteq> Some Map.empty)"
    by fastforce
  with u ne em show ?thesis by blast
qed

text \<open>
  C5 as stated fails on the error paths, with an empty insert batch in both runs.  When
  the statistics serializer fails, no identifier is allocated, nothing is submitted and
  both maps are \<open>nil\<close>.  When the context is already cancelled, the stats blob is submitted
  but the call returns \<open>errUploadToBlobStorage\<close> and a \<open>nil\<close> stats-log map.
\<close>

theorem uploadStatsLog_error_paths:
  "nilResults (fst (uploadStatsLog memIO brokenExt [Run 0, Run 0] world0 3 2 None [9, 9] 5 meta0))
     = Some (True, True, Some (External ''codec'')) \<and>
   snd (uploadStatsLog memIO brokenExt [Run 0, Run 0] world0 3 2 None [9, 9] 5 meta0) = (world0, []) \<and>
   nilResults (fst (uploadStatsLog memIO demoExt [Run 0, Run 0] (world0\<lparr>ctxDone := True\<rparr>) 3 2
                      None [9, 9] 5 meta0))
     = Some (True, True, Some errUploadToBlobStorage) \<and>
   snd (uploadStatsLog memIO demoExt [Run 0, Run 0] (world0\<lparr>ctxDone := True\<rparr>) 3 2 None [9, 9] 5 meta0)
     = (\<lparr>store = [], alloc = 8, ctxDone = True\<rparr>,
        [AllocOneCall (Inr 7), SubmitWrite 0 ''files/stats_log/1/2/3/100/7'' [9, 9],
         CtxDoneCheck 0 True])"
  by code_simp

text \<open>
  C6.  Under every schedule the task of a key makes at most three reads, all of that
  key; a read is followed by another only if it failed with a retryable error; and a read
  that fails with a non-retryable error is the task's last, after which \<open>download\<close> cannot
  return blobs.
\<close>

theorem download_retry_policy:
  assumes "download b x sch w paths = (res, w', evs)" and "i < length paths"
  shows "length (readsOf i evs) \<le> 3 \<and>
         (\<forall>(q, r) \<in> set (readsOf i evs). q = paths ! i) \<and>
         (\<forall>k. Suc k < length (readsOf i evs) \<longrightarrow>
              (\<exists>e. snd (readsOf i evs ! k) = Inl e \<and> IsRetryableErr x e)) \<and>
         (\<forall>k e. k < length (readsOf i evs) \<longrightarrow> snd (readsOf i evs ! k) = Inl e \<longrightarrow>
              \<not> IsRetryableErr x e \<longrightarrow>
              Suc k = length (readsOf i evs) \<and> (\<forall>blobs. res \<noteq> Some (Some blobs, None)))"
proof -
  let ?rs = "readsOf i evs"
  from download_reads [OF assms] obtain w1 ts ev1 where
    res: "res = collectFutures ts 0 (replicate (length paths) None)"
    and len: "length ts = length paths"
    and inv: "readInv b (IsRetryableErr x) (paths ! i) (ts ! i) ?rs"
    by blast
  note att = readInv_attempts [OF inv]
  have last: "Suc k = length ?rs \<and> (\<forall>blobs. res \<noteq> Some (Some blobs, None))"
    if k: "k < length ?rs" and e: "snd (?rs ! k) = Inl e" and nr: "\<not> IsRetryableErr x e" for k e
  proof -
    have sk: "Suc k = length ?rs"
    proof (rule ccontr)
      assume "Suc k \<noteq> length ?rs"
      with k have "Suc k < length ?rs" by simp
      with att(3) e nr show False by auto
    qed
    then have rne: "?rs \<noteq> []" by auto
    then have "last ?rs = ?rs ! (length ?rs - 1)" by (rule last_conv_nth)
    moreover have "length ?rs - 1 = k" using sk by arith
    ultimately have "?rs \<noteq> []" "last ?rs = ?rs ! k" using rne by simp_all
    then have "ts ! i = ReadDone (Inl e)"
      using readInv_final_failure [OF inv, of e] e nr by simp
    then have "\<forall>blobs. res \<noteq> Some (Some blobs, None)"
      using collect_first_failure [of ts 0 "replicate (length paths) None" _ _ i e] assms(2) len
      unfolding res by (metis option.distinct(1))
    with sk show ?thesis by simp
  qed
  show ?thesis using att last by blast
qed

theorem download_retry_policy_witness:
  "download timeoutIO demoExt [Run 0, Run 0, Run 0, Run 0, Run 0] world0 [''a'']
     = (Some (None, Some (External ''timeout'')), world0,
        [SubmitRead 0 ''a'', ReadCall 0 ''a'' (Inl ''timeout''), ReadCall 0 ''a'' (Inl ''timeout''),
         ReadCall 0 ''a'' (Inl ''timeout'')]) \<and>
   (0 :: nat) < length [''a''] \<and>
   length (readsOf 0 [SubmitRead 0 ''a'', ReadCall 0 ''a'' (Inl ''timeout''),
               ReadCall 0 ''a'' (Inl ''timeout''), ReadCall 0 ''a'' (Inl ''timeout'') :: string event]) \<le> 3 \<and>
   download memIO demoExt [Run 0, Run 0, Run 0] world0 [''zz'']
     = (Some (None, Some (External ''not found'')), world0,
        [SubmitRead 0 ''zz'', ReadCall 0 ''zz'' (Inl ''not found'')]) \<and>
   \<not> IsRetryableErr demoExt ''not found'' \<and>
   Suc 0 = length (readsOf 0 [SubmitRead 0 ''zz'', ReadCall 0 ''zz'' (Inl ''not found'') :: string event])"
proof -
  let ?e1 = "[SubmitRead 0 ''a'', ReadCall 0 ''a'' (Inl ''timeout''),
               ReadCall 0 ''a'' (Inl ''timeout''), ReadCall 0 ''a'' (Inl ''timeout'') :: string event]"
  let ?e2 = "[SubmitRead 0 ''zz'', ReadCall 0 ''zz'' (Inl ''not found'') :: string event]"
  have d1: "download timeoutIO demoExt [Run 0, Run 0, Run 0, Run 0, Run 0] world0 [''a'']
     = (Some (None, Some (External ''timeout'')), world0, ?e1)"
    by code_simp
  have d2: "download memIO demoExt [Run 0, Run 0, Run 0] world0 [''zz'']
     = (Some (None, Some (External ''not found'')), world0, ?e2)"
    by code_simp
  have i: "(0 :: nat) < length [''a'']" "(0 :: nat) < length [''zz'']" by simp_all
  have nr: "\<not> IsRetryableErr demoExt ''not found''"
    by (simp add: demoExt_def)
  have a: "length (readsOf 0 ?e1) \<le> 3"
    by (rule download_retry_policy [OF d1 i(1), THEN conjunct1])
  have k: "0 < length (readsOf 0 ?e2)" "snd (readsOf 0 ?e2 ! 0) = Inl ''not found''"
    by simp_all
  have b: "Suc 0 = length (readsOf 0 ?e2)"
    by (rule download_retry_policy [OF d2 i(2), THEN conjunct2, THEN conjunct2, THEN conjunct2,
          rule_format, OF k nr, THEN conjunct1])
  from d1 i(1) a d2 nr b show ?thesis by (intro conjI)
qed

text \<open>
  C7 (as amended).  If a read task has failed for good (its last read failed with an error
  that is not retryable, or it was the third attempt), then whenever \<open>download\<close> returns
  it returns a \<open>nil\<close> blob sequence together with the error of a task that failed for good,
  the first such task in the order of the keys; the blobs fetched by the tasks before it
  are dropped.  The error is that of the given task when every task before it in the
  order of the keys has succeeded.  The call does return once every task has been
  scheduled three times.
\<close>

theorem download_failure:
  assumes "download b x sch w paths = (res, w', evs)" and "i < length paths"
    and "readsOf i evs \<noteq> []" and "snd (last (readsOf i evs)) = Inl e"
    and "\<not> IsRetryableErr x e \<or> length (readsOf i evs) = 3"
  shows "(\<forall>blobs err. res = Some (blobs, err) \<longrightarrow>
            blobs = None \<and>
            (\<exists>j \<le> i. \<exists>e'. err = Some (External e') \<and>
                readsOf j evs \<noteq> [] \<and> snd (last (readsOf j evs)) = Inl e' \<and>
                (\<not> IsRetryableErr x e' \<or> length (readsOf j evs) = 3) \<and>
                (\<forall>k < j. \<exists>val. readsOf k evs \<noteq> [] \<and> snd (last (readsOf k evs)) = Inr val)) \<and>
            ((\<forall>k < i. \<exists>val. readsOf k evs \<noteq> [] \<and> snd (last (readsOf k evs)) = Inr val)
               \<longrightarrow> err = Some (External e))) \<and>
         ((\<forall>j < length paths. 3 \<le> count_list sch (Run j)) \<longrightarrow> res \<noteq> None)"
proof -
  from download_reads [OF assms(1,2)] obtain w1 ts ev1 where
    run: "runTasks (readStep b (IsRetryableErr x)) sch w (map (\<lambda>p. ReadPending p 0) paths) = (w1, ts, ev1)"
    and res: "res = collectFutures ts 0 (replicate (length paths) None)"
    and len: "length ts = length paths"
    and inv: "readInv b (IsRetryableErr x) (paths ! i) (ts ! i) (readsOf i evs)"
    by blast
  have other: "readInv b (IsRetryableErr x) (paths ! j) (ts ! j) (readsOf j evs) \<and>
         (\<forall>q made. ts ! j = ReadPending q made \<longrightarrow> made = count_list sch (Run j))"
    if "j < length paths" for j
    using download_reads [OF assms(1) that] run by fastforce
  have ti: "ts ! i = ReadDone (Inl e)"
    using readInv_final_failure [OF inv assms(3,4,5)] .
  have a: "blobs = None \<and>
            (\<exists>j \<le> i. \<exists>e'. err = Some (External e') \<and>
                readsOf j evs \<noteq> [] \<and> snd (last (readsOf j evs)) = Inl e' \<and>
                (\<not> IsRetryableErr x e' \<or> length (readsOf j evs) = 3) \<and>
                (\<forall>k < j. \<exists>val. readsOf k evs \<noteq> [] \<and> snd (last (readsOf k evs)) = Inr val)) \<and>
            ((\<forall>k < i. \<exists>val. readsOf k evs \<noteq> [] \<and> snd (last (readsOf k evs)) = Inr val)
               \<longrightarrow> err = Some (External e))"
    if r: "res = Some (blobs, err)" for blobs err
  proof -
    from r res have c: "collectFutures ts 0 (replicate (length paths) None) = Some (blobs, err)" by simp
    from collect_first_failure [OF c _ ti] assms(2) len obtain j e' where
      j: "j \<le> i" "ts ! j = ReadDone (Inl e')" "err = Some (External e')" "blobs = None"
      "\<forall>k < j. \<exists>val. ts ! k = ReadDone (Inr val)"
      by auto
    have jl: "j < length paths" using j(1) assms(2) by simp
    have f: "readsOf j evs \<noteq> [] \<and> snd (last (readsOf j evs)) = Inl e' \<and>
             (\<not> IsRetryableErr x e' \<or> length (readsOf j evs) = 3)"
      using other [OF jl] j(2) readInv_done_failure by metis
    have g: "\<exists>val. readsOf k evs \<noteq> [] \<and> snd (last (readsOf k evs)) = Inr val" if "k < j" for k
    proof -
      from that j(5) obtain val where "ts ! k = ReadDone (Inr val)" by blast
      moreover have "k < length paths" using that jl by simp
      ultimately show ?thesis using other readInv_done_success by metis
    qed
    have h: "err = Some (External e)"
      if all: "\<forall>k < i. \<exists>val. readsOf k evs \<noteq> [] \<and> snd (last (readsOf k evs)) = Inr val"
    proof -
      have "\<not> j < i"
      proof
        assume "j < i"
        with all obtain val where "snd (last (readsOf j evs)) = Inr val" by blast
        with f show False by simp
      qed
      with j(1) have "j = i" by simp
      with f assms(4) have "e' = e" by simp
      with j(3) show ?thesis by simp
    qed
    show ?thesis using j f g h by blast
  qed
  have b: "res \<noteq> None" if fair: "\<forall>j < length paths. 3 \<le> count_list sch (Run j)"
  proof -
    have "\<exists>r. t = ReadDone r" if "t \<in> set ts" for t
    proof -
      from that obtain j where j: "j < length ts" "t = ts ! j" by (auto simp: in_set_conv_nth)
      then have jl: "j < length paths" using len by simp
      show ?thesis
      proof (cases t)
        case (ReadPending q made)
        then have tj: "ts ! j = ReadPending q made" using j by simp
        from other [OF jl] have "readInv b (IsRetryableErr x) (paths ! j) (ts ! j) (readsOf j evs)"
          and "\<forall>q made. ts ! j = ReadPending q made \<longrightarrow> made = count_list sch (Run j)"
          by simp_all
        with tj have "made = count_list sch (Run j)" "made < 3"
          by (simp_all add: readInv_def)
        with fair jl show ?thesis by auto
      next
        case (ReadDone r)
        then show ?thesis by simp
      qed
    qed
    then show ?thesis unfolding res by (intro collect_returns) blast
  qed
  show ?thesis using a b by blast
qed

theorem download_failure_witness:
  "download memIO demoExt [Run 1, Run 0, Run 0, Run 0, Run 1, Run 1] storeAB [''b'', ''c'']
     = (Some (None, Some (External ''not found'')), storeAB,
        [SubmitRead 0 ''b'', SubmitRead 1 ''c'', ReadCall 1 ''c'' (Inl ''not found''),
         ReadCall 0 ''b'' (Inr [2])]) \<and>
   (1 :: nat) < length [''b'', ''c''] \<and>
   snd (last (readsOf 1 [SubmitRead 0 ''b'', SubmitRead 1 ''c'', ReadCall 1 ''c'' (Inl ''not found''),
                    ReadCall 0 ''b'' (Inr [2 :: byte]) :: string event])) = Inl ''not found'' \<and>
   \<not> IsRetryableErr demoExt ''not found'' \<and>
   3 \<le> count_list [Run 1, Run 0, Run 0, Run 0, Run 1, Run 1] (Run 0) \<and>
   3 \<le> count_list [Run 1, Run 0, Run 0, Run 0, Run 1, Run 1] (Run 1) \<and>
   Some (None :: Blob option list option, Some (External ''not found'')) \<noteq> None"
proof -
  let ?evs = "[SubmitRead 0 ''b'', SubmitRead 1 ''c'', ReadCall 1 ''c'' (Inl ''not found''),
                    ReadCall 0 ''b'' (Inr [2 :: byte]) :: string event]"
  have d: "download memIO demoExt [Run 1, Run 0, Run 0, Run 0, Run 1, Run 1] storeAB [''b'', ''c'']
     = (Some (None, Some (External ''not found'')), storeAB, ?evs)"
    by code_simp
  have i: "(1 :: nat) < length [''b'', ''c'']" by simp
  have ne: "readsOf 1 ?evs \<noteq> []" by simp
  have la: "snd (last (readsOf 1 ?evs)) = Inl ''not found''" by simp
  have n: "\<not> IsRetryableErr demoExt ''not found''" by (simp add: demoExt_def)
  then have nr: "\<not> IsRetryableErr demoExt ''not found'' \<or> length (readsOf 1 ?evs) = 3" by (rule disjI1)
  have fair: "\<forall>j < length [''b'', ''c'']. 3 \<le> count_list [Run 1, Run 0, Run 0, Run 0, Run 1, Run 1] (Run j)"
    by (simp add: less_Suc_eq)
  have r: "Some (None :: Blob option list option, Some (External ''not found'')) \<noteq> None"
    by (rule download_failure [OF d i ne la nr, THEN conjunct2, rule_format, OF fair [rule_format]])
  have c: "3 \<le> count_list [Run 1, Run 0, Run 0, Run 0, Run 1, Run 1] (Run 0)"
    "3 \<le> count_list [Run 1, Run 0, Run 0, Run 0, Run 1, Run 1] (Run 1)"
    by simp_all
  from d i la n c r show ?thesis by (intro conjI)
qed

text \<open>
  C7 as stated fails when two read tasks fail.  Both reads below fail for good, the one
  of \<open>y\<close> first in time; \<open>download\<close> returns the error of the read of \<open>x\<close>, the first key, and
  the error of the task reading \<open>y\<close> is not returned.
\<close>

theorem download_returns_first_failure_only:
  "download pathErrIO demoExt [Run 1, Run 0] world0 [''x'', ''y'']
     = (Some (None, Some (External ''missing x'')), world0,
        [SubmitRead 0 ''x'', SubmitRead 1 ''y'', ReadCall 1 ''y'' (Inl ''missing y''),
         ReadCall 0 ''x'' (Inl ''missing x'')]) \<and>
   readsOf 1 [SubmitRead 0 ''x'', SubmitRead 1 ''y'', ReadCall 1 ''y'' (Inl ''missing y''),
         ReadCall 0 ''x'' (Inl ''missing x'')] = [(''y'', Inl ''missing y'')] \<and>
   \<not> IsRetryableErr demoExt ''missing y'' \<and>
   (External ''missing y'' :: string error) \<noteq> External ''missing x''"
  by code_simp

text \<open>
  C8.  \<open>uploadInsertLog\<close> with an empty insert batch returns \<open>(nil, nil)\<close> at once: the
  allocator and the store are left as they were and the call causes no event at all, so
  no identifier is allocated, no blob enters a write batch and nothing is written.
\<close>

theorem uploadInsertLog_empty:
  "IsEmpty iData \<Longrightarrow>
   uploadInsertLog b x sch w segID partID iData meta = (Some (None, None), w, [])"
  by (simp add: uploadInsertLog_def)

theorem uploadInsertLog_empty_witness:
  "IsEmpty (Some [(100, []), (101, [])]) \<and>
   uploadInsertLog memIO demoExt [Run 0] world0 3 2 (Some [(100, []), (101, [])]) meta0
     = (Some (None, None), world0, [])"
  using uploadInsertLog_empty [of "Some [(100, []), (101, [])]" memIO demoExt "[Run 0]" world0 3 2 meta0]
  by (simp add: IsEmpty_def)

text \<open>
  C9.  \<open>uploadDeltaLog\<close> on a delete batch with \<open>RowCount = 0\<close> returns \<open>(nil, nil)\<close>, leaves
  allocator and store untouched and causes no event: zero allocations, zero writes.
\<close>

theorem uploadDeltaLog_no_rows:
  "RowCount dData = 0 \<Longrightarrow>
   uploadDeltaLog b x sch w segID partID dData meta = (Some (None, None), w, [])"
  by (simp add: uploadDeltaLog_def)

theorem uploadDeltaLog_no_rows_witness:
  "RowCount \<lparr>RowCount = 0\<rparr> = 0 \<and>
   uploadDeltaLog memIO demoExt [Run 0] world0 3 2 \<lparr>RowCount = 0\<rparr> meta0 = (Some (None, None), world0, [])"
  using uploadDeltaLog_no_rows [of "\<lparr>RowCount = 0\<rparr>" memIO demoExt "[Run 0]" world0 3 2 meta0]
  by simp

text \<open>
  C10.  A write task that has not run when the context is cancelled never calls
  \<open>Write\<close>: once scheduled it polls the context once and returns \<open>errUploadToBlobStorage\<close>.
  So \<open>uploadSegmentFiles\<close> on a non-empty batch with an already cancelled context makes no
  \<open>Write\<close> call and leaves the store as it was; it cannot return success, and it returns
  \<open>errUploadToBlobStorage\<close> as soon as every task has been scheduled.  In every run the first
  event of a task is a poll of the context.
\<close>

theorem cancelled_before_first_attempt:
  "(runTasks (writeStep b) (sch1 @ sch2) w (map (\<lambda>(key, val). AtSelect key val errStart) m)
       = (w1, futures, ev1) \<longrightarrow>
    i < length m \<longrightarrow> ctxDone w \<or> CancelCtx \<in> set sch1 \<longrightarrow> Run i \<notin> set sch1 \<longrightarrow>
      writesOf i ev1 = [] \<and>
      (if Run i \<in> set sch2
       then futures ! i = WriteDone (Some errUploadToBlobStorage) \<and> taskEvents i ev1 = [CtxDoneCheck i True]
       else futures ! i = AtSelect (fst (m ! i)) (snd (m ! i)) errStart \<and> taskEvents i ev1 = [])) \<and>
   (uploadSegmentFiles b sch w c s m = (res, w2, ev2) \<longrightarrow> ctxDone w \<longrightarrow> m \<noteq> [] \<longrightarrow>
      writeCalls ev2 = [] \<and> store w2 = store w \<and>
      (res = None \<or> res = Some (Some errUploadToBlobStorage)) \<and>
      ((\<forall>j < length m. Run j \<in> set sch) \<longrightarrow> res = Some (Some errUploadToBlobStorage))) \<and>
   (runTasks (writeStep b) sch w (map (\<lambda>(key, val). AtSelect key val errStart) m) = (w3, fs3, ev3) \<longrightarrow>
    j < length m \<longrightarrow> taskEvents j ev3 \<noteq> [] \<longrightarrow> (\<exists>c. hd (taskEvents j ev3) = CtxDoneCheck j c))"
proof -
  have p1: "runTasks (writeStep b) (sch1 @ sch2) w (map (\<lambda>(key, val). AtSelect key val errStart) m)
       = (w1, futures, ev1) \<longrightarrow>
    i < length m \<longrightarrow> ctxDone w \<or> CancelCtx \<in> set sch1 \<longrightarrow> Run i \<notin> set sch1 \<longrightarrow>
      writesOf i ev1 = [] \<and>
      (if Run i \<in> set sch2
       then futures ! i = WriteDone (Some errUploadToBlobStorage) \<and> taskEvents i ev1 = [CtxDoneCheck i True]
       else futures ! i = AtSelect (fst (m ! i)) (snd (m ! i)) errStart \<and> taskEvents i ev1 = [])"
  proof (intro impI)
    let ?ts0 = "map (\<lambda>(key, val). AtSelect key val errStart) m"
    assume run: "runTasks (writeStep b) (sch1 @ sch2) w ?ts0 = (w1, futures, ev1)"
      and i: "i < length m" and c: "ctxDone w \<or> CancelCtx \<in> set sch1" and ns: "Run i \<notin> set sch1"
    obtain wa tsa eva where mid: "foldl (sysStep (writeStep b)) (w, ?ts0, []) sch1 = (wa, tsa, eva)"
      by (cases "foldl (sysStep (writeStep b)) (w, ?ts0, []) sch1")
    from foldl_not_scheduled [OF ns mid]
    have a: "tsa ! i = ?ts0 ! i" "taskEvents i eva = []" "writesOf i eva = []" "length tsa = length ?ts0"
      by (simp_all add: taskEvents_Nil)
    have t0: "?ts0 ! i = AtSelect (fst (m ! i)) (snd (m ! i)) errStart"
      using i by (simp add: case_prod_beta)
    have cd: "ctxDone wa"
      using foldl_ctxDone [of "(w, ?ts0, [])" sch1 b] c mid by simp
    have "cancelledTask i (fst (m ! i)) (snd (m ! i)) eva [] (wa, tsa, eva)"
      unfolding cancelledTask_def using a t0 cd i by simp
    then have "cancelledTask i (fst (m ! i)) (snd (m ! i)) eva sch2
                 (foldl (sysStep (writeStep b)) (wa, tsa, eva) sch2)"
      by (rule foldl_cancelledTask)
    moreover have "foldl (sysStep (writeStep b)) (wa, tsa, eva) sch2 = (w1, futures, ev1)"
      using run unfolding runTasks_def by (simp add: mid)
    ultimately have fin: "cancelledTask i (fst (m ! i)) (snd (m ! i)) eva sch2 (w1, futures, ev1)"
      by simp
    show "writesOf i ev1 = [] \<and>
        (if Run i \<in> set sch2
         then futures ! i = WriteDone (Some errUploadToBlobStorage) \<and> taskEvents i ev1 = [CtxDoneCheck i True]
         else futures ! i = AtSelect (fst (m ! i)) (snd (m ! i)) errStart \<and> taskEvents i ev1 = [])"
      using fin a unfolding cancelledTask_def by (simp split: if_splits)
  qed
  have p2: "uploadSegmentFiles b sch w c s m = (res, w2, ev2) \<longrightarrow> ctxDone w \<longrightarrow> m \<noteq> [] \<longrightarrow>
      writeCalls ev2 = [] \<and> store w2 = store w \<and>
      (res = None \<or> res = Some (Some errUploadToBlobStorage)) \<and>
      ((\<forall>j < length m. Run j \<in> set sch) \<longrightarrow> res = Some (Some errUploadToBlobStorage))"
  proof (intro impI)
    let ?ts0 = "map (\<lambda>(key, val). AtSelect key val errStart) m"
    assume up: "uploadSegmentFiles b sch w c s m = (res, w2, ev2)" and cd: "ctxDone w" and ne: "m \<noteq> []"
    obtain wr ts evs where run: "runTasks (writeStep b) sch w ?ts0 = (wr, ts, evs)"
      by (cases "runTasks (writeStep b) sch w ?ts0")
    from up ne have res: "res = AwaitAll ts" and w2: "w2 = wr" and ev2: "ev2 = submitWrites m @ evs"
      by (simp_all add: uploadSegmentFiles_def run)
    have "cancelledCall (store w) [] (w, ?ts0, [])"
      unfolding cancelledCall_def using cd by (simp add: case_prod_beta)
    then have "cancelledCall (store w) sch (foldl (sysStep (writeStep b)) (w, ?ts0, []) sch)"
      by (rule foldl_cancelledCall)
    then have cc: "cancelledCall (store w) sch (wr, ts, evs)"
      using run unfolding runTasks_def by simp
    have len: "length ts = length m"
      using foldl_sysStep_length [of "writeStep b" "(w, ?ts0, [])" sch] run
      unfolding runTasks_def by simp
    from cc have st: "store wr = store w" and wc: "writeCalls evs = []"
      and each: "\<And>k. k < length ts \<Longrightarrow>
             (if Run k \<in> set sch then ts ! k = WriteDone (Some errUploadToBlobStorage)
              else (\<exists>p v. ts ! k = AtSelect p v errStart))"
      unfolding cancelledCall_def by auto
    have all: "res = Some (Some errUploadToBlobStorage)" if fair: "\<forall>j < length m. Run j \<in> set sch"
    proof -
      have "\<forall>t \<in> set ts. t = WriteDone (Some errUploadToBlobStorage)"
      proof
        fix t assume "t \<in> set ts"
        then obtain k where k: "k < length ts" "t = ts ! k" by (auto simp: in_set_conv_nth)
        with fair len have "Run k \<in> set sch" by simp
        with each [OF k(1)] k(2) show "t = WriteDone (Some errUploadToBlobStorage)" by simp
      qed
      moreover have "ts \<noteq> []" using len ne by auto
      ultimately show ?thesis unfolding res by (rule AwaitAll_all_cancelled [rotated])
    qed
    have some: "res = None \<or> res = Some (Some errUploadToBlobStorage)"
    proof (cases "\<forall>j < length m. Run j \<in> set sch")
      case True
      then show ?thesis using all by simp
    next
      case False
      then obtain k where k: "k < length m" "Run k \<notin> set sch" by auto
      with each [of k] len obtain p v where "ts ! k = AtSelect p v errStart" by auto
      moreover have "ts ! k \<in> set ts" using k(1) len by simp
      ultimately have "AwaitAll ts = None" by (intro AwaitAll_pending [of "ts ! k"]) simp_all
      then show ?thesis unfolding res by simp
    qed
    show "writeCalls ev2 = [] \<and> store w2 = store w \<and>
        (res = None \<or> res = Some (Some errUploadToBlobStorage)) \<and>
        ((\<forall>j < length m. Run j \<in> set sch) \<longrightarrow> res = Some (Some errUploadToBlobStorage))"
      using st wc some all unfolding w2 ev2 by (simp add: writeCalls_append writeCalls_submitWrites)
  qed
  have p3: "runTasks (writeStep b) sch w(map (\<lambda>(key, val). AtSelect key val errStart) m) = (w3, fs3, ev3) \<longrightarrow>
    j < length m \<longrightarrow> taskEvents j ev3 \<noteq> [] \<longrightarrow> (\<exists>c. hd (taskEvents j ev3) = CtxDoneCheck j c)"
  proof (intro impI)
    assume run: "runTasks (writeStep b) sch w (map (\<lambda>(key, val). AtSelect key val errStart) m) = (w3, fs3, ev3)"
      and j: "j < length m" and ne: "taskEvents j ev3 \<noteq> []"
    from runWrites_inv [of m b sch w] run j
    have "foldl (discipline j (m ! j)) (AwaitCheck True) (taskEvents j ev3) \<noteq> Violated"
      unfolding writesInv_def by auto
    then show "\<exists>c. hd (taskEvents j ev3) = CtxDoneCheck j c"
      using ne by (rule first_event_is_check)
  qed
  show ?thesis by (rule conjI [OF p1 conjI [OF p2 p3]])
qed

theorem cancelled_before_first_attempt_witness:
  "runTasks (writeStep memIO) ([Run 1, CancelCtx] @ [Run 0, Run 1]) world0
      (map (\<lambda>(key, val). AtSelect key val errStart) [(''a'', [1]), (''b'', [2])])
     = (\<lparr>store = [(''b'', [2])], alloc = 7, ctxDone = True\<rparr>,
        [WriteDone (Some errUploadToBlobStorage), WriteDone None],
        [CtxDoneCheck 1 False, CtxDoneCheck 0 True, WriteCall 1 ''b'' [2] None]) \<and>
   (0 :: nat) < length [(''a'', [1 :: byte]), (''b'', [2])] \<and>
   CancelCtx \<in> set [Run 1, CancelCtx] \<and> Run 0 \<notin> set [Run 1, CancelCtx] \<and>
   writesOf 0 [CtxDoneCheck 1 False, CtxDoneCheck 0 True, WriteCall 1 ''b'' [2 :: byte] (None :: string option)] = [] \<and>
   uploadSegmentFiles memIO [Run 1, Run 0] (world0\<lparr>ctxDone := True\<rparr>) 1 3 [(''a'', [1]), (''b'', [2])]
     = (Some (Some errUploadToBlobStorage), world0\<lparr>ctxDone := True\<rparr>,
        [SubmitWrite 0 ''a'' [1], SubmitWrite 1 ''b'' [2], CtxDoneCheck 1 True, CtxDoneCheck 0 True]) \<and>
   ctxDone (world0\<lparr>ctxDone := True\<rparr>) \<and>
   store (world0\<lparr>ctxDone := True\<rparr>) = store (world0\<lparr>ctxDone := True\<rparr>) \<and>
   writeCalls [SubmitWrite 0 ''a'' [1], SubmitWrite 1 ''b'' [2 :: byte], CtxDoneCheck 1 True,
               CtxDoneCheck 0 True :: string event] = [] \<and>
   (\<exists>c. hd (taskEvents 1 [CtxDoneCheck 1 False, CtxDoneCheck 0 True,
                           WriteCall 1 ''b'' [2 :: byte] (None :: string option)]) = CtxDoneCheck 1 c)"
proof -
  let ?m = "[(''a'', [1 :: byte]), (''b'', [2])]"
  let ?e1 = "[CtxDoneCheck 1 False, CtxDoneCheck 0 True, WriteCall 1 ''b'' [2 :: byte] (None :: string option)]"
  let ?e2 = "[SubmitWrite 0 ''a'' [1], SubmitWrite 1 ''b'' [2 :: byte], CtxDoneCheck 1 True,
               CtxDoneCheck 0 True :: string event]"
  let ?wc = "world0\<lparr>ctxDone := True\<rparr>"
  have r1: "runTasks (writeStep memIO) ([Run 1, CancelCtx] @ [Run 0, Run 1]) world0
      (map (\<lambda>(key, val). AtSelect key val errStart) ?m)
     = (\<lparr>store = [(''b'', [2])], alloc = 7, ctxDone = True\<rparr>,
        [WriteDone (Some errUploadToBlobStorage), WriteDone None], ?e1)"
    by code_simp
  have r2: "uploadSegmentFiles memIO [Run 1, Run 0] ?wc 1 3 ?m
     = (Some (Some errUploadToBlobStorage), ?wc, ?e2)"
    by code_simp
  have r3: "runTasks (writeStep memIO) [Run 1, CancelCtx, Run 0, Run 1] world0
      (map (\<lambda>(key, val). AtSelect key val errStart) ?m)
     = (\<lparr>store = [(''b'', [2])], alloc = 7, ctxDone = True\<rparr>,
        [WriteDone (Some errUploadToBlobStorage), WriteDone None], ?e1)"
    using r1 by simp
  have i: "(0 :: nat) < length ?m" "(1 :: nat) < length ?m" by simp_all
  have c: "CancelCtx \<in> set [Run 1, CancelCtx]" "Run 0 \<notin> set [Run 1, CancelCtx]" by simp_all
  have cd: "ctxDone ?wc" by simp
  have ne: "?m \<noteq> []" by simp
  have te: "taskEvents 1 ?e1 \<noteq> []" by (simp add: taskEvents_def)
  note T1 = cancelled_before_first_attempt [THEN conjunct1, rule_format, OF r1 i(1) disjI2 [OF c(1)] c(2)]
  note T2 = cancelled_before_first_attempt [THEN conjunct2, THEN conjunct1, rule_format, OF r2 cd ne]
  note T3 = cancelled_before_first_attempt [THEN conjunct2, THEN conjunct2, rule_format, OF r3 i(2) te]
  have a: "writesOf 0 ?e1 = []" by (rule T1 [THEN conjunct1])
  have b: "writeCalls ?e2 = []" by (rule T2 [THEN conjunct1])
  have b': "store ?wc = store ?wc" by (rule T2 [THEN conjunct2, THEN conjunct1])
  from r1 i(1) c a r2 cd b' b T3 show ?thesis by (intro conjI)
qed

end
